theory Spec2Isabelle
  imports Complex_Main "HOL-Library.Monad_Syntax"
begin

unbundle bit_operations_syntax

chapter \<open>The model: a shallow embedding of \<^verbatim>\<open>Simd::Detection\<close>\<close>

text \<open>
  The definitions of this chapter follow \<^verbatim>\<open>src/Simd/SimdDetection.hpp\<close> function by
  function.  Conventions:

  \<^item> \<^verbatim>\<open>ptrdiff_t\<close>, \<^verbatim>\<open>int\<close> and \<^verbatim>\<open>size_t\<close> values are image coordinates, counts and
    indices; they are unbounded integers and naturals here.  Where the source hands an
    \<^verbatim>\<open>int\<close> to a \<^verbatim>\<open>size_t\<close> (the weights and \<^verbatim>\<open>groupSizeMin\<close>) the conversion is written
    out.
  \<^item> A C++ \<^verbatim>\<open>double\<close> is idealised as a real number (no rounding error).  Conversions from
    \<^verbatim>\<open>double\<close> back to an integer type are made by headers that are not part of the
    sources; they are parameters (\<open>cvt\<close>, \<open>Round\<close>) of the functions that use them.
  \<^item> An access outside a vector, and a loop that does not return, is the result \<open>None\<close>.
\<close>

section \<open>Geometry and detected objects\<close>

record Point =
  px :: int
  py :: int

record Rect =
  left :: int
  top' :: int
  right :: int
  bottom :: int

text \<open>Modelled from the spec: the header declaring \<^verbatim>\<open>Simd::Rectangle\<close> is not part of the
  sources.  A rectangle's width and height are the differences of its edges, the default
  rectangle is empty at the origin, \<^verbatim>\<open>+=\<close> adds edge by edge and division by a \<^verbatim>\<open>double\<close>
  divides edge by edge, each quotient converted back to an integer by \<open>cvt\<close>.\<close>

definition Width :: "Rect \<Rightarrow> int" where
  "Width r = right r - left r"

definition Height :: "Rect \<Rightarrow> int" where
  "Height r = bottom r - top' r"

definition Rect0 :: Rect where
  "Rect0 = \<lparr>left = 0, top' = 0, right = 0, bottom = 0\<rparr>"

definition Rect_add :: "Rect \<Rightarrow> Rect \<Rightarrow> Rect" where
  "Rect_add a b = \<lparr>left = left a + left b, top' = top' a + top' b,
                   right = right a + right b, bottom = bottom a + bottom b\<rparr>"

definition Rect_div :: "(real \<Rightarrow> int) \<Rightarrow> Rect \<Rightarrow> real \<Rightarrow> Rect" where
  "Rect_div cvt r v = \<lparr>left = cvt (real_of_int (left r) / v), top' = cvt (real_of_int (top' r) / v),
                       right = cvt (real_of_int (right r) / v), bottom = cvt (real_of_int (bottom r) / v)\<rparr>"

type_synonym Tag = int

definition UNDEFINED_OBJECT_TAG :: Tag where
  "UNDEFINED_OBJECT_TAG = - 1"

record Object =
  rect :: Rect
  weight :: int
  tag :: Tag

text \<open>The default constructor \<^verbatim>\<open>Object()\<close>.\<close>

definition Object0 :: Object where
  "Object0 = \<lparr>rect = Rect0, weight = 0, tag = UNDEFINED_OBJECT_TAG\<rparr>"

section \<open>Similarity of two candidates (\<^verbatim>\<open>Similar::operator()\<close>)\<close>

definition Similar :: "real \<Rightarrow> Object \<Rightarrow> Object \<Rightarrow> bool" where
  "Similar sizeDifferenceMax o1 o2 =
     (let r1 = rect o1; r2 = rect o2;
          delta = sizeDifferenceMax
                    * real_of_int (min (Width r1) (Width r2) + min (Height r1) (Height r2)) * 0.5
      in real_of_int \<bar>left r1 - left r2\<bar> \<le> delta \<and> real_of_int \<bar>top' r1 - top' r2\<bar> \<le> delta \<and>
         real_of_int \<bar>right r1 - right r2\<bar> \<le> delta \<and> real_of_int \<bar>bottom r1 - bottom r2\<bar> \<le> delta)"

section \<open>Disjoint-set partition (\<^verbatim>\<open>Partition\<close>)\<close>

text \<open>
  The source keeps \<^verbatim>\<open>nodes[i][PARENT]\<close> and \<^verbatim>\<open>nodes[i][RANK]\<close> in one vector of \<open>2 N\<close>
  integers; here a node is the pair (parent, rank).  The three \<^verbatim>\<open>while\<close> loops that walk
  parent links need not terminate on an arbitrary vector, so they are partial functions.
  The variable \<open>rt\<close> stands for \<^verbatim>\<open>root\<close> of the source.
\<close>

type_synonym nodes = "(int \<times> int) list"

text \<open>\<^verbatim>\<open>while (nodes[root][PARENT] >= 0) root = nodes[root][PARENT];\<close>\<close>

partial_function (option) find_root :: "nodes \<Rightarrow> nat \<Rightarrow> nat option" where
  "find_root nodes rt =
     (if rt < length nodes
      then (if fst (nodes ! rt) \<ge> 0 then find_root nodes (nat (fst (nodes ! rt)))
            else Some rt)
      else None)"

declare find_root.simps [code]

text \<open>\<^verbatim>\<open>while ((parent = nodes[k][PARENT]) >= 0) { nodes[k][PARENT] = root; k = parent; }\<close>\<close>

partial_function (option) compress :: "nat \<Rightarrow> nodes \<Rightarrow> nat \<Rightarrow> nodes option" where
  "compress rt nodes k =
     (if k < length nodes
      then (if fst (nodes ! k) \<ge> 0
            then compress rt (nodes[k := (int rt, snd (nodes ! k))]) (nat (fst (nodes ! k)))
            else Some nodes)
      else None)"

declare compress.simps [code]

text \<open>Union by rank of two distinct roots; the second component is the new value of
  \<^verbatim>\<open>root\<close>.\<close>

definition link :: "nodes \<Rightarrow> nat \<Rightarrow> nat \<Rightarrow> nodes \<times> nat" where
  "link nodes rt root2 =
     (let rank = snd (nodes ! rt); rank2 = snd (nodes ! root2)
      in if rank > rank2 then (nodes[root2 := (int rt, snd (nodes ! root2))], rt)
         else (let nodes1 = nodes[rt := (int root2, snd (nodes ! rt))]
               in (nodes1[root2 := (fst (nodes1 ! root2),
                                     snd (nodes1 ! root2) + (if rank = rank2 then 1 else 0))],
                   root2)))"

text \<open>The body of \<^verbatim>\<open>if (root2 != root)\<close>: the union, the assertion that the new root has
  no parent, and the two path compressions, from \<open>j\<close> and from \<open>i\<close>.\<close>

definition unite :: "nodes \<Rightarrow> nat \<Rightarrow> nat \<Rightarrow> nat \<Rightarrow> nat \<Rightarrow> (nodes \<times> nat) option" where
  "unite nodes i j rt root2 =
     (let (nodes1, rt') = link nodes rt root2
      in if fst (nodes1 ! rt') < 0
         then do { nodes2 \<leftarrow> compress rt' nodes1 j;
                   nodes3 \<leftarrow> compress rt' nodes2 i;
                   Some (nodes3, rt') }
         else None)"

text \<open>The loop over \<open>j\<close> for a fixed \<open>i\<close>; the state is the node vector and \<^verbatim>\<open>root\<close>.\<close>

fun join_loop :: "real \<Rightarrow> Object list \<Rightarrow> nat \<Rightarrow> nat list \<Rightarrow> nodes \<times> nat \<Rightarrow> (nodes \<times> nat) option" where
  "join_loop sdm vec i [] s = Some s"
| "join_loop sdm vec i (j # js) (nodes, rt) =
     (if i = j \<or> \<not> Similar sdm (vec ! i) (vec ! j) then join_loop sdm vec i js (nodes, rt)
      else do { root2 \<leftarrow> find_root nodes j;
                if root2 \<noteq> rt
                then do { s \<leftarrow> unite nodes i j rt root2; join_loop sdm vec i js s }
                else join_loop sdm vec i js (nodes, rt) })"

text \<open>The loop over \<open>i\<close>.\<close>

fun merge_loop :: "real \<Rightarrow> Object list \<Rightarrow> nat list \<Rightarrow> nodes \<Rightarrow> nodes option" where
  "merge_loop sdm vec [] nodes = Some nodes"
| "merge_loop sdm vec (i # is) nodes =
     do { rt \<leftarrow> find_root nodes i;
          s \<leftarrow> join_loop sdm vec i [0..<length vec] (nodes, rt);
          merge_loop sdm vec is (fst s) }"

text \<open>The final loop: the rank of a root is overwritten by the complement of its class
  number the first time the root is met.\<close>

fun label_loop :: "nat list \<Rightarrow> nodes \<times> int \<times> int list \<Rightarrow> (nodes \<times> int \<times> int list) option" where
  "label_loop [] s = Some s"
| "label_loop (i # is) (nodes, nclasses, labels) =
     do { rt \<leftarrow> find_root nodes i;
          let (nodes', nclasses') =
                (if snd (nodes ! rt) \<ge> 0
                 then (nodes[rt := (fst (nodes ! rt), NOT nclasses)], nclasses + 1)
                 else (nodes, nclasses));
          label_loop is (nodes', nclasses', labels[i := NOT (snd (nodes' ! rt))]) }"

definition Partition :: "Object list \<Rightarrow> real \<Rightarrow> (int \<times> int list) option" where
  "Partition vec sizeDifferenceMax =
     (let N = length vec
      in do { nodes \<leftarrow> merge_loop sizeDifferenceMax vec [0..<N] (replicate N (- 1, 0));
              (_, nclasses, labels) \<leftarrow> label_loop [0..<N] (nodes, 0, replicate N 0);
              Some (nclasses, labels) })"

section \<open>Clustering (\<^verbatim>\<open>GroupObjects\<close>)\<close>

text \<open>The comparison \<^verbatim>\<open>n1 < groupSizeMin\<close> is between an \<^verbatim>\<open>int\<close> and a \<^verbatim>\<open>size_t\<close>: the
  \<^verbatim>\<open>int\<close> is converted to the unsigned type first.\<close>

definition size_t_of_int :: "int \<Rightarrow> nat" where
  "size_t_of_int n = (if n < 0 then nat (n + 2 ^ 64) else nat n)"

text \<open>The loop over \<^verbatim>\<open>labels\<close> that adds every candidate to the buffer entry of its
  class.\<close>

fun accumulate :: "Object list \<Rightarrow> int list \<Rightarrow> nat list \<Rightarrow> Object list \<Rightarrow> Object list option" where
  "accumulate src labels [] buffer = Some buffer"
| "accumulate src labels (i # is) buffer =
     (let cls = labels ! i
      in if 0 \<le> cls \<and> nat cls < length buffer \<and> i < length src
         then accumulate src labels is
                (buffer[nat cls := \<lparr>rect = Rect_add (rect (buffer ! nat cls)) (rect (src ! i)),
                                      weight = weight (buffer ! nat cls) + 1,
                                      tag = tag (src ! i)\<rparr>])
         else None)"

text \<open>\<^verbatim>\<open>buffer[i].rect = buffer[i].rect / double(buffer[i].weight)\<close>\<close>

definition average :: "(real \<Rightarrow> int) \<Rightarrow> Object \<Rightarrow> Object" where
  "average cvt b = b\<lparr>rect := Rect_div cvt (rect b) (real_of_int (weight b))\<rparr>"

text \<open>The first half of \<^verbatim>\<open>GroupObjects\<close>: partition, accumulate, average.\<close>

definition clusters :: "(real \<Rightarrow> int) \<Rightarrow> Object list \<Rightarrow> real \<Rightarrow> Object list option" where
  "clusters cvt src sizeDifferenceMax =
     do { (nclasses, labels) \<leftarrow> Partition src sizeDifferenceMax;
          buffer \<leftarrow> accumulate src labels [0..<length labels] (replicate (nat nclasses) Object0);
          Some (map (average cvt) buffer) }"

text \<open>The inner loop of the suppression pass; its value is the final value of \<open>j\<close>, which is
  \<^verbatim>\<open>buffer.size()\<close> when the loop ran to its end without \<^verbatim>\<open>break\<close>.\<close>

fun suppress_scan :: "(real \<Rightarrow> int) \<Rightarrow> real \<Rightarrow> nat \<Rightarrow> Object list \<Rightarrow> nat \<Rightarrow> nat list \<Rightarrow> nat" where
  "suppress_scan Round sdm groupSizeMin buffer i [] = length buffer"
| "suppress_scan Round sdm groupSizeMin buffer i (j # js) =
     (let r1 = rect (buffer ! i); n1 = weight (buffer ! i); n2 = weight (buffer ! j)
      in if j = i \<or> size_t_of_int n2 < groupSizeMin
         then suppress_scan Round sdm groupSizeMin buffer i js
         else (let r2 = rect (buffer ! j);
                   dx = Round (real_of_int (Width r2) * sdm);
                   dy = Round (real_of_int (Height r2) * sdm)
               in if i \<noteq> j \<and> (n2 > max 3 n1 \<or> n1 < 3) \<and>
                     left r1 \<ge> left r2 - dx \<and> top' r1 \<ge> top' r2 - dy \<and>
                     right r1 \<le> right r2 + dx \<and> bottom r1 \<le> bottom r2 + dy
                  then j
                  else suppress_scan Round sdm groupSizeMin buffer i js))"

text \<open>The outer loop of the suppression pass.\<close>

fun suppress_loop :: "(real \<Rightarrow> int) \<Rightarrow> real \<Rightarrow> nat \<Rightarrow> Object list \<Rightarrow> nat list \<Rightarrow> Object list \<Rightarrow> Object list" where
  "suppress_loop Round sdm groupSizeMin buffer [] dst = dst"
| "suppress_loop Round sdm groupSizeMin buffer (i # is) dst =
     (if size_t_of_int (weight (buffer ! i)) < groupSizeMin
      then suppress_loop Round sdm groupSizeMin buffer is dst
      else (let j = suppress_scan Round sdm groupSizeMin buffer i [0..<length buffer]
            in suppress_loop Round sdm groupSizeMin buffer is
                 (if j = length buffer then dst @ [buffer ! i] else dst)))"

definition GroupObjects ::
  "(real \<Rightarrow> int) \<Rightarrow> (real \<Rightarrow> int) \<Rightarrow> Object list \<Rightarrow> Object list \<Rightarrow> nat \<Rightarrow> real \<Rightarrow> Object list option" where
  "GroupObjects cvt Round dst src groupSizeMin sizeDifferenceMax =
     (if groupSizeMin = 0 \<or> length src < groupSizeMin then Some dst
      else do { buffer \<leftarrow> clusters cvt src sizeDifferenceMax;
                Some (suppress_loop Round sizeDifferenceMax groupSizeMin buffer
                        [0..<length buffer] dst) })"



section \<open>Images, cascades and the external primitives\<close>

text \<open>Modelled from the spec: the headers declaring \<^verbatim>\<open>Simd::Point\<close>, \<^verbatim>\<open>Simd::Rectangle\<close> and
  \<^verbatim>\<open>Simd::View\<close> are not part of the sources.  Sizes are points; the helpers below are the
  operations on points and rectangles that the detector calls, with their usual meaning.
  Division of an integer point by 2 truncates towards zero, as C++ division does.\<close>

definition Point_sub :: "Point \<Rightarrow> Point \<Rightarrow> Point" where
  "Point_sub a b = \<lparr>px = px a - px b, py = py a - py b\<rparr>"

definition Point_add :: "Point \<Rightarrow> Point \<Rightarrow> Point" where
  "Point_add a b = \<lparr>px = px a + px b, py = py a + py b\<rparr>"

definition trunc_half :: "int \<Rightarrow> int" where
  "trunc_half a = (if 0 \<le> a then a div 2 else - ((- a) div 2))"

definition Point_neg_half :: "Point \<Rightarrow> Point" where
  "Point_neg_half a = \<lparr>px = trunc_half (- px a), py = trunc_half (- py a)\<rparr>"

definition Point_mul :: "(real \<Rightarrow> int) \<Rightarrow> Point \<Rightarrow> real \<Rightarrow> Point" where
  "Point_mul cvt a s = \<lparr>px = cvt (real_of_int (px a) * s), py = cvt (real_of_int (py a) * s)\<rparr>"

definition Point_div :: "(real \<Rightarrow> int) \<Rightarrow> Point \<Rightarrow> real \<Rightarrow> Point" where
  "Point_div cvt a s = \<lparr>px = cvt (real_of_int (px a) / s), py = cvt (real_of_int (py a) / s)\<rparr>"

definition Rect_of_Size :: "Point \<Rightarrow> Rect" where
  "Rect_of_Size s = \<lparr>left = 0, top' = 0, right = px s, bottom = py s\<rparr>"

definition Rect_mul :: "(real \<Rightarrow> int) \<Rightarrow> Rect \<Rightarrow> real \<Rightarrow> Rect" where
  "Rect_mul cvt r v = \<lparr>left = cvt (real_of_int (left r) * v), top' = cvt (real_of_int (top' r) * v),
                       right = cvt (real_of_int (right r) * v), bottom = cvt (real_of_int (bottom r) * v)\<rparr>"

definition Shifted :: "Rect \<Rightarrow> Point \<Rightarrow> Rect" where
  "Shifted r s = \<lparr>left = left r + px s, top' = top' r + py s,
                  right = right r + px s, bottom = bottom r + py s\<rparr>"

definition Intersection :: "Rect \<Rightarrow> Rect \<Rightarrow> Rect" where
  "Intersection a b =
     (let l = max (left a) (left b); t = max (top' a) (top' b)
      in \<lparr>left = l, top' = t, right = max l (min (right a) (right b)),
          bottom = max t (min (bottom a) (bottom b))\<rparr>)"

definition Empty :: "Rect \<Rightarrow> bool" where
  "Empty r \<longleftrightarrow> Width r * Height r = 0"

definition Rect_or :: "Rect \<Rightarrow> Rect \<Rightarrow> Rect" where
  "Rect_or a b =
     (if Empty a then b
      else \<lparr>left = min (left a) (left b), top' = min (top' a) (top' b),
            right = max (right a) (right b), bottom = max (bottom a) (bottom b)\<rparr>)"

datatype Format = NoFormat | Gray8 | Bgr24 | Int32

record 'p View =
  vsize :: Point
  format :: Format
  pixels :: 'p

datatype DetectPtr =
    HaarDetect32fi | HaarDetect32fp
  | LbpDetect16ii | LbpDetect16ip
  | LbpDetect32fi | LbpDetect32fp

text \<open>
  The functions of the library that the detector calls and whose code is elsewhere: the
  cascade loader, the per-level binding and the six detection routines, and the image
  operations.  They are the fields of one record, so that every theorem below holds for
  whatever these functions compute.  An operation that writes an image returns the new
  pixels of that image.  A detection routine reads the integral images of its level through
  pointers stored in its handle; here it receives them as arguments.
\<close>

record ('h, 'p) prims =
  DetectionLoadA :: "string \<Rightarrow> 'h option"
  DetectionInfo :: "'h \<Rightarrow> Point \<times> bool \<times> bool \<times> bool"
  DetectionInit :: "'h \<Rightarrow> 'p View \<Rightarrow> 'p View \<Rightarrow> 'p View \<Rightarrow> bool \<Rightarrow> bool \<Rightarrow> 'h option"
  DetectionRun :: "DetectPtr \<Rightarrow> 'h \<Rightarrow> 'p View \<times> 'p View \<times> 'p View \<Rightarrow> 'p View
                    \<Rightarrow> int \<Rightarrow> int \<Rightarrow> int \<Rightarrow> int \<Rightarrow> 'p View \<Rightarrow> 'p"
  fresh :: "Point \<Rightarrow> Format \<Rightarrow> 'p"
  Convert :: "'p View \<Rightarrow> 'p"
  ResizeBilinear :: "'p View \<Rightarrow> Point \<Rightarrow> 'p"
  NormalizeHistogram :: "'p View \<Rightarrow> 'p"
  IntegralSum :: "'p View \<Rightarrow> 'p"
  IntegralSqsum :: "'p View \<Rightarrow> 'p"
  IntegralTilted :: "'p View \<Rightarrow> 'p"
  Fill :: "'p View \<Rightarrow> nat \<Rightarrow> 'p"
  FillRegion :: "'p View \<Rightarrow> Rect \<Rightarrow> nat \<Rightarrow> 'p"
  Binarization :: "'p View \<Rightarrow> 'p"
  ShrinkRegion :: "'p View \<Rightarrow> nat \<Rightarrow> Rect \<Rightarrow> Rect"
  And8u :: "'p View \<Rightarrow> 'p View \<Rightarrow> 'p"
  RegionMiddleCenter :: "'p View \<Rightarrow> Point \<Rightarrow> 'p View"
  pixel :: "'p \<Rightarrow> int \<Rightarrow> int \<Rightarrow> nat"

text \<open>\<^verbatim>\<open>view.Recreate(size, format)\<close>: a buffer of the given size and format whose pixels
  are not initialised.\<close>

definition Recreate :: "('h, 'p) prims \<Rightarrow> Point \<Rightarrow> Format \<Rightarrow> 'p View" where
  "Recreate P s f = \<lparr>vsize = s, format = f, pixels = fresh P s f\<rparr>"

subsection \<open>The row strips of \<^verbatim>\<open>Hid::Detect\<close>\<close>

text \<open>The part of \<^verbatim>\<open>Hid::Detect\<close> after the rectangle \<open>r\<close> has been computed and the
  destination cleared.  \<open>run l t r b d\<close> is one call of the detection routine on the rows
  \<open>t \<le> row < b\<close>; \<open>workers\<close> is \<^verbatim>\<open>workers.size()\<close>.  Every worker receives one strip and the
  caller waits for all of them; the strips are applied here in the order in which they are
  handed out.  The source divides in \<^verbatim>\<open>size_t\<close>; for \<open>top \<le> bottom\<close>, which is what the
  intersection that yields \<open>r\<close> guarantees, that is the division written here.\<close>

definition strip_step :: "Rect \<Rightarrow> nat \<Rightarrow> bool \<Rightarrow> int" where
  "strip_step r workers throughColumn =
     (let step = (bottom r - top' r) div int workers + 1
      in if throughColumn then step + step mod 2 else step)"

definition strip_top :: "Rect \<Rightarrow> nat \<Rightarrow> bool \<Rightarrow> nat \<Rightarrow> int" where
  "strip_top r workers throughColumn i = top' r + int i * strip_step r workers throughColumn"

definition strip_bottom :: "Rect \<Rightarrow> nat \<Rightarrow> bool \<Rightarrow> nat \<Rightarrow> int" where
  "strip_bottom r workers throughColumn i =
     min (strip_top r workers throughColumn i + strip_step r workers throughColumn) (bottom r)"

definition Detect_rows :: "(int \<Rightarrow> int \<Rightarrow> int \<Rightarrow> int \<Rightarrow> 'b \<Rightarrow> 'b) \<Rightarrow> Rect \<Rightarrow> 'b \<Rightarrow> nat \<Rightarrow> bool \<Rightarrow> 'b" where
  "Detect_rows run r d workers throughColumn =
     (if workers = 0 then run (left r) (top' r) (right r) (bottom r) d
      else foldl (\<lambda>d i. run (left r) (strip_top r workers throughColumn i) (right r)
                              (strip_bottom r workers throughColumn i) d)
                 d [0..<workers])"

section \<open>The detector\<close>

text \<open>Modelled from the spec: the flag masks of \<^verbatim>\<open>SimdDetectionInfoFlags\<close> are declared in a
  header outside the sources; the three fields \<open>Haar\<close>, \<open>Tilted\<close> and \<open>Int16\<close> are the values
  of the accessors of the same names.\<close>

record 'h Data =
  handle :: 'h
  tag' :: Tag
  size' :: Point
  Haar :: bool
  Tilted :: bool
  Int16 :: bool

record 'h Hid =
  handle' :: 'h
  data :: nat
  detect :: DetectPtr

record ('h, 'p) Level =
  hids :: "'h Hid list"
  scale :: real
  src :: "'p View"
  roi :: "'p View"
  mask :: "'p View"
  rect' :: Rect
  sum' :: "'p View"
  sqsum :: "'p View"
  tilted :: "'p View"
  dst :: "'p View"
  throughColumn :: bool
  needSqsum :: bool
  needTilted :: bool

text \<open>The members of \<^verbatim>\<open>Detection\<close>.  Only the number of worker threads matters to what
  follows, so \<^verbatim>\<open>_workers\<close> is that number.\<close>

record ('h, 'p) Detection =
  m_data :: "'h Data list"
  m_imageSize :: Point
  m_needNormalization :: bool
  m_levels :: "('h, 'p) Level list"
  m_workers :: nat

text \<open>The constructor \<^verbatim>\<open>Detection()\<close>: the members without an initialiser have no defined
  value, so they are arguments here.\<close>

definition Detection0 :: "Point \<Rightarrow> bool \<Rightarrow> ('h, 'p) Detection" where
  "Detection0 s n = \<lparr>m_data = [], m_imageSize = s, m_needNormalization = n, m_levels = [], m_workers = 0\<rparr>"

subsection \<open>\<^verbatim>\<open>Load\<close>\<close>

definition Load :: "('h, 'p) prims \<Rightarrow> string \<Rightarrow> Tag \<Rightarrow> ('h, 'p) Detection \<Rightarrow> bool \<times> ('h, 'p) Detection" where
  "Load P path t d =
     (case DetectionLoadA P path of
        Some h \<Rightarrow>
          (let (s, haar, tilt, i16) = DetectionInfo P h
           in (True, d\<lparr>m_data := m_data d @
                 [\<lparr>handle = h, tag' = t, size' = s, Haar = haar, Tilted = tilt, Int16 = i16\<rparr>]\<rparr>))
      | None \<Rightarrow> (False, d))"

subsection \<open>\<^verbatim>\<open>Hid::Detect\<close>\<close>

text \<open>The call \<^verbatim>\<open>SimdDetectionPrepare(handle)\<close> changes only the native state behind the
  handle; what the routine reads from the level is passed to \<open>DetectionRun\<close> directly.\<close>

definition Hid_Detect ::
  "('h, 'p) prims \<Rightarrow> 'h Data list \<Rightarrow> ('h, 'p) Level \<Rightarrow> 'h Hid \<Rightarrow> 'p View \<Rightarrow> Rect \<Rightarrow> nat \<Rightarrow> 'p View" where
  "Hid_Detect P ds level hid msk rct workers =
     (let s = Point_sub (vsize (dst level)) (size' (ds ! data hid));
          m = RegionMiddleCenter P msk s;
          r = Intersection (Shifted rct (Point_neg_half (size' (ds ! data hid)))) (Rect_of_Size s);
          d0 = (dst level)\<lparr>pixels := Fill P (dst level) 0\<rparr>
      in Detect_rows
           (\<lambda>l t rr b d. d\<lparr>pixels := DetectionRun P (detect hid) (handle' hid)
                                        (sum' level, sqsum level, tilted level) m l t rr b d\<rparr>)
           r d0 workers (throughColumn level))"

subsection \<open>\<^verbatim>\<open>InitWorkers\<close>, \<^verbatim>\<open>InitLevels\<close> and \<^verbatim>\<open>Init\<close>\<close>

definition InitWorkers :: "int \<Rightarrow> int \<Rightarrow> ('h, 'p) Detection \<Rightarrow> ('h, 'p) Detection" where
  "InitWorkers hardware_concurrency threadNumber d =
     (let threadNumberMax = hardware_concurrency;
          n = (if threadNumber \<le> 0 \<or> threadNumber > threadNumberMax then threadNumberMax
               else threadNumber)
      in if n > 1 then d\<lparr>m_workers := m_workers d + nat n\<rparr> else d)"

text \<open>The test on the scaled window of one model: within \<^verbatim>\<open>sizeMax\<close> and the image, and
  then also not below \<^verbatim>\<open>sizeMin\<close>.\<close>

definition fits :: "(real \<Rightarrow> int) \<Rightarrow> Point \<Rightarrow> Point \<Rightarrow> 'h Data \<Rightarrow> real \<Rightarrow> bool" where
  "fits cvt imageSize sizeMax d s =
     (let windowSize = Point_mul cvt (size' d) s
      in px windowSize \<le> px sizeMax \<and> py windowSize \<le> py sizeMax \<and>
         px windowSize \<le> px imageSize \<and> py windowSize \<le> py imageSize)"

definition inserted :: "(real \<Rightarrow> int) \<Rightarrow> Point \<Rightarrow> Point \<Rightarrow> Point \<Rightarrow> 'h Data \<Rightarrow> real \<Rightarrow> bool" where
  "inserted cvt imageSize sizeMin sizeMax d s =
     (let windowSize = Point_mul cvt (size' d) s
      in fits cvt imageSize sizeMax d s \<and>
         px windowSize \<ge> px sizeMin \<and> py windowSize \<ge> py sizeMin)"

definition select_detect :: "'h Data \<Rightarrow> bool \<Rightarrow> DetectPtr" where
  "select_detect d through =
     (if Haar d then (if through then HaarDetect32fi else HaarDetect32fp)
      else if Int16 d then (if through then LbpDetect16ii else LbpDetect16ip)
      else (if through then LbpDetect32fi else LbpDetect32fp))"

text \<open>The loop that binds the inserted models to a new level.  The first component of the
  result is \<open>False\<close> when a bind failed, which is where the source returns \<^verbatim>\<open>false\<close>; the
  level and \<^verbatim>\<open>_needNormalization\<close> are then as they were at that moment.\<close>

fun bind_loop ::
  "('h, 'p) prims \<Rightarrow> 'h Data list \<Rightarrow> bool list \<Rightarrow> nat list \<Rightarrow> ('h, 'p) Level \<times> bool
     \<Rightarrow> bool \<times> ('h, 'p) Level \<times> bool" where
  "bind_loop P ds inserts [] (level, nn) = (True, level, nn)"
| "bind_loop P ds inserts (i # is) (level, nn) =
     (if \<not> inserts ! i then bind_loop P ds inserts is (level, nn)
      else (case DetectionInit P (handle (ds ! i)) (sum' level) (sqsum level) (tilted level)
                   (throughColumn level) (Int16 (ds ! i)) of
              Some h \<Rightarrow>
                bind_loop P ds inserts is
                  (level\<lparr>hids := hids level @
                            [\<lparr>handle' = h, data = i, detect = select_detect (ds ! i) (throughColumn level)\<rparr>],
                         needSqsum := needSqsum level \<or> Haar (ds ! i),
                         needTilted := needTilted level \<or> Tilted (ds ! i)\<rparr>,
                   nn \<or> Haar (ds ! i))
            | None \<Rightarrow> (False, level, nn)))"

text \<open>The new level before the binding loop, and the region of interest after it.\<close>

definition new_level :: "('h, 'p) prims \<Rightarrow> (real \<Rightarrow> int) \<Rightarrow> Point \<Rightarrow> real \<Rightarrow> ('h, 'p) Level" where
  "new_level P cvt imageSize s =
     (let scaledSize = Point_div cvt imageSize s;
          plus1 = Point_add scaledSize \<lparr>px = 1, py = 1\<rparr>
      in \<lparr>hids = [], scale = s,
          src = Recreate P scaledSize Gray8, roi = Recreate P scaledSize Gray8,
          mask = Recreate P scaledSize Gray8, rect' = Rect0,
          sum' = Recreate P plus1 Int32, sqsum = Recreate P plus1 Int32,
          tilted = Recreate P plus1 Int32, dst = Recreate P scaledSize Gray8,
          throughColumn = (s \<le> 2), needSqsum = False, needTilted = False\<rparr>)"

definition set_roi :: "('h, 'p) prims \<Rightarrow> 'p View \<Rightarrow> ('h, 'p) Level \<Rightarrow> ('h, 'p) Level" where
  "set_roi P roi0 level =
     (let level1 = level\<lparr>rect' := Rect_of_Size (vsize (roi level))\<rparr>
      in if format roi0 = NoFormat
         then level1\<lparr>roi := (roi level1)\<lparr>pixels := Fill P (roi level1) 255\<rparr>\<rparr>
         else (let r1 = (roi level1)\<lparr>pixels := ResizeBilinear P roi0 (vsize (roi level1))\<rparr>;
                   r2 = r1\<lparr>pixels := Binarization P r1\<rparr>
               in level1\<lparr>roi := r2, rect' := ShrinkRegion P r2 255 (rect' level1)\<rparr>))"

text \<open>One pass through the body of the \<^verbatim>\<open>do ... while (true)\<close> loop of \<^verbatim>\<open>InitLevels\<close>
  at scale \<open>s\<close>, from the current \<^verbatim>\<open>_needNormalization\<close> and \<^verbatim>\<open>_levels\<close>.  \<open>Inl\<close> is a
  return from the function (by \<^verbatim>\<open>break\<close>, with the flag \<^verbatim>\<open>!_levels.empty()\<close>, or by
  \<^verbatim>\<open>return false\<close> when a bind fails); \<open>Inr\<close> goes on to \<^verbatim>\<open>scale *= scaleFactor\<close>.\<close>

definition scale_step ::
  "('h, 'p) prims \<Rightarrow> (real \<Rightarrow> int) \<Rightarrow> 'h Data list \<Rightarrow> Point \<Rightarrow> Point \<Rightarrow> Point \<Rightarrow> 'p View
     \<Rightarrow> real \<Rightarrow> bool \<times> ('h, 'p) Level list
     \<Rightarrow> (bool \<times> bool \<times> ('h, 'p) Level list) + (bool \<times> ('h, 'p) Level list)" where
  "scale_step P cvt ds imageSize sizeMin sizeMax roi0 s st =
     (case st of (nn, lvls) \<Rightarrow>
        (let inserts = map (\<lambda>d. inserted cvt imageSize sizeMin sizeMax d s) ds;
             exit = (\<forall>d \<in> set ds. \<not> fits cvt imageSize sizeMax d s);
             insert' = (\<exists>b \<in> set inserts. b)
         in if exit then Inl (lvls \<noteq> [], nn, lvls)
            else if insert'
            then (case bind_loop P ds inserts [0..<length ds] (new_level P cvt imageSize s, nn) of
                    (ok, level, nn') \<Rightarrow>
                      if ok then Inr (nn', lvls @ [set_roi P roi0 level])
                      else Inl (False, nn', lvls @ [level]))
            else Inr (nn, lvls)))"

partial_function (option) levels_loop ::
  "('h, 'p) prims \<Rightarrow> (real \<Rightarrow> int) \<Rightarrow> 'h Data list \<Rightarrow> Point \<Rightarrow> real \<Rightarrow> Point \<Rightarrow> Point \<Rightarrow> 'p View
     \<Rightarrow> real \<Rightarrow> bool \<times> ('h, 'p) Level list \<Rightarrow> (bool \<times> bool \<times> ('h, 'p) Level list) option" where
  "levels_loop prm cvt ds imageSize scaleFactor sizeMin sizeMax roi0 s st =
     (case scale_step prm cvt ds imageSize sizeMin sizeMax roi0 s st of
        Inl res \<Rightarrow> Some res
      | Inr st' \<Rightarrow> levels_loop prm cvt ds imageSize scaleFactor sizeMin sizeMax roi0
                     (s * scaleFactor) st')"

declare levels_loop.simps [code]

definition InitLevels ::
  "('h, 'p) prims \<Rightarrow> (real \<Rightarrow> int) \<Rightarrow> real \<Rightarrow> Point \<Rightarrow> Point \<Rightarrow> 'p View \<Rightarrow> ('h, 'p) Detection
     \<Rightarrow> (bool \<times> ('h, 'p) Detection) option" where
  "InitLevels P cvt scaleFactor sizeMin sizeMax roi0 d =
     do { (ok, nn, lvls) \<leftarrow> levels_loop P cvt (m_data d) (m_imageSize d) scaleFactor sizeMin sizeMax
                                roi0 1 (False, []);
          Some (ok, d\<lparr>m_needNormalization := nn, m_levels := lvls\<rparr>) }"

definition Init ::
  "('h, 'p) prims \<Rightarrow> (real \<Rightarrow> int) \<Rightarrow> int \<Rightarrow> Point \<Rightarrow> real \<Rightarrow> Point \<Rightarrow> Point \<Rightarrow> 'p View \<Rightarrow> int
     \<Rightarrow> ('h, 'p) Detection \<Rightarrow> (bool \<times> ('h, 'p) Detection) option" where
  "Init P cvt hardware_concurrency imageSize scaleFactor sizeMin sizeMax roi0 threadNumber d =
     (if m_data d = [] then Some (False, d)
      else InitLevels P cvt scaleFactor sizeMin sizeMax roi0
             (InitWorkers hardware_concurrency threadNumber (d\<lparr>m_imageSize := imageSize\<rparr>)))"

subsection \<open>\<^verbatim>\<open>EstimateIntegral\<close> and \<^verbatim>\<open>FillLevels\<close>\<close>

definition EstimateIntegral :: "('h, 'p) prims \<Rightarrow> ('h, 'p) Level \<Rightarrow> ('h, 'p) Level" where
  "EstimateIntegral P level =
     (if needSqsum level
      then (if needTilted level
            then level\<lparr>sum' := (sum' level)\<lparr>pixels := IntegralSum P (src level)\<rparr>,
                       sqsum := (sqsum level)\<lparr>pixels := IntegralSqsum P (src level)\<rparr>,
                       tilted := (tilted level)\<lparr>pixels := IntegralTilted P (src level)\<rparr>\<rparr>
            else level\<lparr>sum' := (sum' level)\<lparr>pixels := IntegralSum P (src level)\<rparr>,
                       sqsum := (sqsum level)\<lparr>pixels := IntegralSqsum P (src level)\<rparr>\<rparr>)
      else level\<lparr>sum' := (sum' level)\<lparr>pixels := IntegralSum P (src level)\<rparr>\<rparr>)"

text \<open>\<^verbatim>\<open>Simd::ResizeBilinear(source, level.src)\<close>: the destination keeps its size and format.\<close>

definition resize_into :: "('h, 'p) prims \<Rightarrow> 'p View \<Rightarrow> ('h, 'p) Level \<Rightarrow> ('h, 'p) Level" where
  "resize_into P source level =
     level\<lparr>src := (src level)\<lparr>pixels := ResizeBilinear P source (vsize (src level))\<rparr>\<rparr>"

text \<open>\<^verbatim>\<open>FillLevels\<close> is called with a non-empty \<^verbatim>\<open>_levels\<close> only; with an empty one the
  access \<^verbatim>\<open>_levels[0]\<close> is outside the vector.\<close>

definition FillLevels ::
  "('h, 'p) prims \<Rightarrow> 'p View \<Rightarrow> ('h, 'p) Detection \<Rightarrow> ('h, 'p) Detection option" where
  "FillLevels P img d =
     (case m_levels d of
        [] \<Rightarrow> None
      | level0 # rest \<Rightarrow>
          (let gray = (if format img \<noteq> Gray8
                       then (let g = Recreate P (vsize img) Gray8 in g\<lparr>pixels := Convert P img\<rparr>)
                       else img);
               l1 = resize_into P gray level0;
               l2 = (if m_needNormalization d
                     then l1\<lparr>src := (src l1)\<lparr>pixels := NormalizeHistogram P (src l1)\<rparr>\<rparr>
                     else l1);
               l3 = EstimateIntegral P l2
           in Some (d\<lparr>m_levels := l3 # map (\<lambda>l. EstimateIntegral P (resize_into P (src l3) l)) rest\<rparr>)))"

subsection \<open>\<^verbatim>\<open>FillMotionMask\<close> and \<^verbatim>\<open>AddObjects\<close>\<close>

definition FillMotionMask ::
  "('h, 'p) prims \<Rightarrow> (real \<Rightarrow> int) \<Rightarrow> Rect list \<Rightarrow> ('h, 'p) Level \<Rightarrow> ('h, 'p) Level \<times> Rect" where
  "FillMotionMask P cvt rects level =
     (let m0 = (mask level)\<lparr>pixels := Fill P (mask level) 0\<rparr>;
          (m1, r1) = foldl (\<lambda>(m, rct) r0. (let r = Rect_div cvt r0 (scale level)
                                            in (m\<lparr>pixels := FillRegion P m r 255\<rparr>, Rect_or rct r)))
                           (m0, Rect0) rects;
          m2 = m1\<lparr>pixels := And8u P m1 (roi level)\<rparr>
      in (level\<lparr>mask := m2\<rparr>, Intersection r1 (rect' level)))"

text \<open>The values taken by the control variable of \<^verbatim>\<open>for (v = lo; v < hi; v += step)\<close>.  The
  step of \<^verbatim>\<open>AddObjects\<close> is 1 or 2; a step of 0 would never leave the loop and gives no
  values here.\<close>

function stepped :: "int \<Rightarrow> int \<Rightarrow> nat \<Rightarrow> int list" where
  "stepped lo hi step = (if lo < hi \<and> 0 < step then lo # stepped (lo + int step) hi step else [])"
  by pat_completeness auto
termination
  by (relation "measure (\<lambda>(lo, hi, step). nat (hi - lo))") auto

declare stepped.simps [simp del]

definition AddObjects ::
  "('h, 'p) prims \<Rightarrow> (real \<Rightarrow> int) \<Rightarrow> Object list \<Rightarrow> 'p View \<Rightarrow> Rect \<Rightarrow> Point \<Rightarrow> real \<Rightarrow> nat \<Rightarrow> Tag
     \<Rightarrow> Object list" where
  "AddObjects P cvt objects d rct sz s step t =
     (let s0 = Point_sub (vsize d) sz;
          r = Intersection (Shifted rct (Point_neg_half sz)) (Rect_of_Size s0)
      in objects @
         concat (map (\<lambda>row. concat (map (\<lambda>col.
                   if pixel P (pixels d) col row \<noteq> 0
                   then [\<lparr>rect = Rect_mul cvt \<lparr>left = col, top' = row, right = col + px sz,
                                                bottom = row + py sz\<rparr> s,
                          weight = 1, tag = t\<rparr>]
                   else []) (stepped (left r) (right r) step)))
                 (stepped (top' r) (bottom r) step)))"

subsection \<open>\<^verbatim>\<open>Detect\<close>\<close>

text \<open>\<^verbatim>\<open>candidates[tag]\<close> on a \<^verbatim>\<open>std::map\<close>: the entry is created when it is missing.  The
  map is a list of pairs with distinct keys; it is read in the order of the keys at the
  end.\<close>

definition candidates_at :: "(Tag \<times> Object list) list \<Rightarrow> Tag \<Rightarrow> Object list" where
  "candidates_at c t = (case map_of c t of Some objs \<Rightarrow> objs | None \<Rightarrow> [])"

definition candidates_put :: "(Tag \<times> Object list) list \<Rightarrow> Tag \<Rightarrow> Object list \<Rightarrow> (Tag \<times> Object list) list" where
  "candidates_put c t objs = (t, objs) # filter (\<lambda>e. fst e \<noteq> t) c"

text \<open>The loop over the evaluators of one level.\<close>

definition hids_loop ::
  "('h, 'p) prims \<Rightarrow> (real \<Rightarrow> int) \<Rightarrow> 'h Data list \<Rightarrow> nat \<Rightarrow> 'p View \<Rightarrow> Rect
     \<Rightarrow> ('h, 'p) Level \<times> (Tag \<times> Object list) list \<Rightarrow> ('h, 'p) Level \<times> (Tag \<times> Object list) list" where
  "hids_loop P cvt ds workers msk rct st =
     foldl (\<lambda>(level, c) hid.
              (let level1 = level\<lparr>dst := Hid_Detect P ds level hid msk rct workers\<rparr>;
                   t = tag' (ds ! data hid)
               in (level1,
                   candidates_put c t
                     (AddObjects P cvt (candidates_at c t) (dst level1) rct (size' (ds ! data hid))
                        (scale level1) (if throughColumn level1 then 2 else 1) t))))
           st (hids (fst st))"

text \<open>The loop over the levels.\<close>

fun levels_detect ::
  "('h, 'p) prims \<Rightarrow> (real \<Rightarrow> int) \<Rightarrow> 'h Data list \<Rightarrow> nat \<Rightarrow> bool \<Rightarrow> Rect list
     \<Rightarrow> ('h, 'p) Level list \<Rightarrow> (Tag \<times> Object list) list
     \<Rightarrow> ('h, 'p) Level list \<times> (Tag \<times> Object list) list" where
  "levels_detect P cvt ds workers motionMask motionRegions [] c = ([], c)"
| "levels_detect P cvt ds workers motionMask motionRegions (level # rest) c =
     (let (level1, msk, rct) =
            (if motionMask
             then (let (l, r) = FillMotionMask P cvt motionRegions level in (l, mask l, r))
             else (level, roi level, rect' level));
          (level2, c2) = (if Empty rct then (level1, c)
                          else hids_loop P cvt ds workers msk rct (level1, c));
          (rest', c3) = levels_detect P cvt ds workers motionMask motionRegions rest c2
      in (level2 # rest', c3))"

text \<open>The last loop of \<^verbatim>\<open>Detect\<close>: \<^verbatim>\<open>GroupObjects\<close> for every tag, in the order of the tags.\<close>

fun group_all ::
  "(real \<Rightarrow> int) \<Rightarrow> (real \<Rightarrow> int) \<Rightarrow> (Tag \<times> Object list) list \<Rightarrow> nat \<Rightarrow> real \<Rightarrow> Object list
     \<Rightarrow> Object list option" where
  "group_all cvt Round [] groupSizeMin sizeDifferenceMax objects = Some objects"
| "group_all cvt Round (e # es) groupSizeMin sizeDifferenceMax objects =
     do { objects' \<leftarrow> GroupObjects cvt Round objects (snd e) groupSizeMin sizeDifferenceMax;
          group_all cvt Round es groupSizeMin sizeDifferenceMax objects' }"

text \<open>\<^verbatim>\<open>Detect\<close> returns its flag, the vector \<^verbatim>\<open>objects\<close> and the detector, whose level
  buffers it has refreshed.  \<^verbatim>\<open>groupSizeMin\<close> is an \<^verbatim>\<open>int\<close> here and a \<^verbatim>\<open>size_t\<close> in
  \<^verbatim>\<open>GroupObjects\<close>.\<close>

definition Detect ::
  "('h, 'p) prims \<Rightarrow> (real \<Rightarrow> int) \<Rightarrow> (real \<Rightarrow> int) \<Rightarrow> 'p View \<Rightarrow> Object list \<Rightarrow> int \<Rightarrow> real \<Rightarrow> bool
     \<Rightarrow> Rect list \<Rightarrow> ('h, 'p) Detection \<Rightarrow> (bool \<times> Object list \<times> ('h, 'p) Detection) option" where
  "Detect P cvt Round img objects groupSizeMin sizeDifferenceMax motionMask motionRegions d =
     (if m_levels d = [] \<or> vsize img \<noteq> m_imageSize d then Some (False, objects, d)
      else do {
        d1 \<leftarrow> FillLevels P img d;
        let (lvls, c) = levels_detect P cvt (m_data d1) (m_workers d1) motionMask motionRegions
                          (m_levels d1) [];
        objects' \<leftarrow> group_all cvt Round (sort_key fst c) (size_t_of_int groupSizeMin)
                      sizeDifferenceMax [];
        Some (True, objects', d1\<lparr>m_levels := lvls\<rparr>) })"

chapter \<open>Verification\<close>

section \<open>Definitions used in the statements and proofs\<close>

text \<open>A node vector is \<open>ranked\<close> by \<open>f\<close> when every parent link stays inside the vector and
  leads to a node of strictly larger \<open>f\<close>: parent links then form a forest, and every walk
  along them ends.\<close>

definition ranked :: "(nat \<Rightarrow> int) \<Rightarrow> nodes \<Rightarrow> bool" where
  "ranked f nodes \<longleftrightarrow>
     (\<forall>k < length nodes. fst (nodes ! k) \<ge> 0 \<longrightarrow>
        nat (fst (nodes ! k)) < length nodes \<and> f k < f (nat (fst (nodes ! k))))"

text \<open>The invariant of the merging loops of \<^verbatim>\<open>Partition\<close>: the vector is ranked by its own
  rank fields, which are not negative.\<close>

definition inv2 :: "nodes \<Rightarrow> bool" where
  "inv2 nodes \<longleftrightarrow> ranked (\<lambda>k. snd (nodes ! k)) nodes \<and> (\<forall>k < length nodes. 0 \<le> snd (nodes ! k))"

text \<open>What one candidate adds to the buffer entry of its class.\<close>

definition absorb :: "Object list \<Rightarrow> Object \<Rightarrow> nat \<Rightarrow> Object" where
  "absorb cands b i = \<lparr>rect = Rect_add (rect b) (rect (cands ! i)), weight = weight b + 1, tag = tag (cands ! i)\<rparr>"

text \<open>The members of class \<open>c\<close> under a labelling, in the order of their indices, and the
  edge-by-edge sum of a list of rectangles.\<close>

definition members :: "int list \<Rightarrow> nat \<Rightarrow> nat list" where
  "members labels c = filter (\<lambda>i. labels ! i = int c) [0..<length labels]"

definition Rect_sum :: "Rect list \<Rightarrow> Rect" where
  "Rect_sum rs = \<lparr>left = sum_list (map left rs), top' = sum_list (map top' rs),
                  right = sum_list (map right rs), bottom = sum_list (map bottom rs)\<rparr>"

text \<open>The suppression rule in the words of the specification: \<open>r1\<close> lies within \<open>r2\<close> widened
  by the margins \<open>Round (width * sizeDifferenceMax)\<close> and \<open>Round (height * sizeDifferenceMax)\<close>;
  cluster \<open>i\<close> is suppressed by another cluster \<open>j\<close> of sufficient weight that contains it in
  this sense, when \<open>j\<close> is heavier than \<open>max 3 weight\<^sub>i\<close> or \<open>i\<close> has weight below 3; a cluster
  is emitted when it has sufficient weight and no cluster suppresses it.\<close>

definition nested_in :: "(real \<Rightarrow> int) \<Rightarrow> real \<Rightarrow> Rect \<Rightarrow> Rect \<Rightarrow> bool" where
  "nested_in Round sdm r1 r2 \<longleftrightarrow>
     left r2 - Round (real_of_int (Width r2) * sdm) \<le> left r1 \<and>
     top' r2 - Round (real_of_int (Height r2) * sdm) \<le> top' r1 \<and>
     right r1 \<le> right r2 + Round (real_of_int (Width r2) * sdm) \<and>
     bottom r1 \<le> bottom r2 + Round (real_of_int (Height r2) * sdm)"

definition suppressed_by :: "(real \<Rightarrow> int) \<Rightarrow> real \<Rightarrow> nat \<Rightarrow> Object list \<Rightarrow> nat \<Rightarrow> nat \<Rightarrow> bool" where
  "suppressed_by Round sdm groupSizeMin buffer i j \<longleftrightarrow>
     j \<noteq> i \<and> int groupSizeMin \<le> weight (buffer ! j) \<and>
     nested_in Round sdm (rect (buffer ! i)) (rect (buffer ! j)) \<and>
     (weight (buffer ! j) > max 3 (weight (buffer ! i)) \<or> weight (buffer ! i) < 3)"

definition emitted :: "(real \<Rightarrow> int) \<Rightarrow> real \<Rightarrow> nat \<Rightarrow> Object list \<Rightarrow> nat \<Rightarrow> bool" where
  "emitted Round sdm groupSizeMin buffer i \<longleftrightarrow>
     int groupSizeMin \<le> weight (buffer ! i) \<and>
     \<not> list_ex (suppressed_by Round sdm groupSizeMin buffer i) [0..<length buffer]"

text \<open>Concrete data on which the model is run: a conversion from \<^verbatim>\<open>double\<close> to an integer
  that rounds to the nearest integer, halves away from zero, and candidates of weight 1
  with tag 7.\<close>

definition sample_round :: "real \<Rightarrow> int" where
  "sample_round v = (if 0 \<le> v then \<lfloor>v + 1 / 2\<rfloor> else \<lceil>v - 1 / 2\<rceil>)"

definition cand :: "int \<Rightarrow> int \<Rightarrow> int \<Rightarrow> int \<Rightarrow> Object" where
  "cand l t r b = \<lparr>rect = \<lparr>left = l, top' = t, right = r, bottom = b\<rparr>, weight = 1, tag = 7\<rparr>"

definition sample_vec :: "Object list" where
  "sample_vec = [cand 10 10 50 50, cand 12 12 52 52, cand 200 200 240 240]"

definition sample_nested :: "Object list" where
  "sample_nested = [cand 0 0 100 100, cand 30 30 70 70, cand 0 0 100 100, cand 0 0 100 100,
                    cand 30 30 70 70, cand 0 0 100 100]"


text \<open>The rows of strip \<open>i\<close> of \<^verbatim>\<open>Hid::Detect\<close>.\<close>

definition strip_rows :: "Rect \<Rightarrow> nat \<Rightarrow> bool \<Rightarrow> nat \<Rightarrow> int set" where
  "strip_rows r workers through i = {strip_top r workers through i ..< strip_bottom r workers through i}"

text \<open>Modelled from the spec: the six detection routines are not part of the sources.  A
  routine scans the rows \<open>t, t + stride, \<dots>\<close> below \<open>b\<close> and the columns
  \<open>l, l + stride, \<dots>\<close> below \<open>r\<close> and marks the cells that its cascade accepts; the stride is
  2 for the column-interleaved routines and 1 otherwise.  The output bitmap is the set of
  marked cells.  \<open>scan_rows\<close> is used to show that the assumptions made on a routine below
  can be met.\<close>

definition scan_rows :: "(int \<Rightarrow> int \<Rightarrow> bool) \<Rightarrow> nat \<Rightarrow> int \<Rightarrow> int \<Rightarrow> int \<Rightarrow> int \<Rightarrow> (int \<times> int) set \<Rightarrow> (int \<times> int) set" where
  "scan_rows hit stride l t r b d =
     d \<union> {(col, row). row \<in> set (stepped t b stride) \<and> col \<in> set (stepped l r stride) \<and> hit col row}"

definition sample_rect :: Rect where
  "sample_rect = \<lparr>left = 0, top' = 1, right = 6, bottom = 8\<rparr>"

text \<open>Images as terms: every external operation is a constructor applied to its arguments, so
  that the pixels of a buffer record how they were computed.  In \<open>sym_prims ok\<close> the native
  bind of the cascade with handle \<open>h\<close> succeeds when \<open>ok h\<close> (always for \<open>always_binds\<close>, never
  for \<open>never_binds\<close>); a detection routine marks the cells whose coordinates are multiples of 8.\<close>

datatype sym = Pix nat | Num int | Op string "sym list"

definition always_binds :: "nat \<Rightarrow> bool" where
  "always_binds h = True"

definition never_binds :: "nat \<Rightarrow> bool" where
  "never_binds h = False"

definition sym_prims :: "(nat \<Rightarrow> bool) \<Rightarrow> (nat, sym) prims" where
  "sym_prims bind_ok =
     \<lparr>DetectionLoadA = (\<lambda>path. if path = [] then None else Some (length path)),
      DetectionInfo = (\<lambda>h. (\<lparr>px = 20, py = 20\<rparr>, True, False, False)),
      DetectionInit = (\<lambda>h s q t through i16. if bind_ok h then Some (h + 100) else None),
      DetectionRun = (\<lambda>f h ints m l t r b d.
                        Op ''Detect'' [Num (int h), pixels (fst ints), pixels m, Num l, Num t, Num r, Num b, pixels d]),
      fresh = (\<lambda>s f. Op ''fresh'' [Num (px s), Num (py s)]),
      Convert = (\<lambda>v. Op ''Convert'' [pixels v]),
      ResizeBilinear = (\<lambda>v s. Op ''ResizeBilinear'' [pixels v, Num (px s), Num (py s)]),
      NormalizeHistogram = (\<lambda>v. Op ''NormalizeHistogram'' [pixels v]),
      IntegralSum = (\<lambda>v. Op ''Integral.sum'' [pixels v]),
      IntegralSqsum = (\<lambda>v. Op ''Integral.sqsum'' [pixels v]),
      IntegralTilted = (\<lambda>v. Op ''Integral.tilted'' [pixels v]),
      Fill = (\<lambda>v c. Op ''Fill'' [Num (int c)]),
      FillRegion = (\<lambda>v r c. Op ''FillRegion'' [pixels v, Num (left r), Num (top' r), Num (right r), Num (bottom r), Num (int c)]),
      Binarization = (\<lambda>v. Op ''Binarization'' [pixels v]),
      ShrinkRegion = (\<lambda>v c r. r),
      And8u = (\<lambda>a b. Op ''And'' [pixels a, pixels b]),
      RegionMiddleCenter = (\<lambda>v s. \<lparr>vsize = s, format = format v, pixels = Op ''Region'' [pixels v, Num (px s), Num (py s)]\<rparr>),
      pixel = (\<lambda>p col row. case p of Op n args \<Rightarrow> (if n = ''Detect'' \<and> col mod 8 = 0 \<and> row mod 8 = 0 then 1 else 0) | _ \<Rightarrow> 0)\<rparr>"

definition sample_image :: "Point \<Rightarrow> sym View" where
  "sample_image s = \<lparr>vsize = s, format = Bgr24, pixels = Pix 0\<rparr>"

definition no_roi :: "sym View" where
  "no_roi = \<lparr>vsize = \<lparr>px = 0, py = 0\<rparr>, format = NoFormat, pixels = Pix 1\<rparr>"

text \<open>A detector with one cascade loaded under tag 7, the same with the image size of a
  coming \<^verbatim>\<open>Init\<close>, \<^verbatim>\<open>Init\<close> for a square image with scale factor 2 and no worker threads, and
  \<^verbatim>\<open>Detect\<close> on a square image with \<^verbatim>\<open>groupSizeMin = 1\<close>.\<close>

definition loaded :: "(nat \<Rightarrow> bool) \<Rightarrow> (nat, sym) Detection" where
  "loaded ok = snd (Load (sym_prims ok) ''haar_face_0.xml'' 7 (Detection0 \<lparr>px = 0, py = 0\<rparr> False))"


definition init_sample :: "(nat \<Rightarrow> bool) \<Rightarrow> int \<Rightarrow> (bool \<times> (nat, sym) Detection) option" where
  "init_sample ok n = Init (sym_prims ok) sample_round 1 \<lparr>px = n, py = n\<rparr> 2 \<lparr>px = 0, py = 0\<rparr>
                      \<lparr>px = 1000, py = 1000\<rparr> no_roi 1 (loaded ok)"

definition detect_sample :: "(nat \<Rightarrow> bool) \<Rightarrow> int \<Rightarrow> (nat, sym) Detection \<Rightarrow> (bool \<times> Object list \<times> (nat, sym) Detection) option" where
  "detect_sample ok n d = Detect (sym_prims ok) sample_round sample_round (sample_image \<lparr>px = n, py = n\<rparr>)
                            [cand 1 2 3 4] 1 (1 / 5) False [] d"

text \<open>The scale loop of \<^verbatim>\<open>InitLevels\<close> in the words of the specification, at the \<open>k\<close>-th
  scale \<open>scaleFactor ^ k\<close>: the loop exits when no model fits, a level is emitted when some
  model is inserted, and the qualifying models at a scale are those that are inserted.\<close>

definition exit_at :: "(real \<Rightarrow> int) \<Rightarrow> 'h Data list \<Rightarrow> Point \<Rightarrow> Point \<Rightarrow> real \<Rightarrow> nat \<Rightarrow> bool" where
  "exit_at cvt ds imageSize sizeMax sf k \<longleftrightarrow> (\<forall>d \<in> set ds. \<not> fits cvt imageSize sizeMax d (sf ^ k))"

definition emit_at :: "(real \<Rightarrow> int) \<Rightarrow> 'h Data list \<Rightarrow> Point \<Rightarrow> Point \<Rightarrow> Point \<Rightarrow> real \<Rightarrow> nat \<Rightarrow> bool" where
  "emit_at cvt ds imageSize sizeMin sizeMax sf k \<longleftrightarrow>
     (\<exists>d \<in> set ds. inserted cvt imageSize sizeMin sizeMax d (sf ^ k))"

definition qualifying :: "(real \<Rightarrow> int) \<Rightarrow> 'h Data list \<Rightarrow> Point \<Rightarrow> Point \<Rightarrow> Point \<Rightarrow> real \<Rightarrow> nat list" where
  "qualifying cvt ds imageSize sizeMin sizeMax s =
     filter (\<lambda>i. inserted cvt imageSize sizeMin sizeMax (ds ! i) s) [0..<length ds]"

text \<open>The detector after \<^verbatim>\<open>Init\<close> for a 100 by 100 image and one run of \<^verbatim>\<open>FillLevels\<close> on
  such an image.\<close>

definition filled_sample :: "(nat, sym) Detection" where
  "filled_sample = the (FillLevels (sym_prims always_binds) (sample_image \<lparr>px = 100, py = 100\<rparr>)
                          (snd (the (init_sample always_binds 100))))"

section \<open>\<^verbatim>\<open>Partition\<close> returns, with labels below the class count\<close>

subsection \<open>Walking to the root\<close>

lemma ranked_bound: "k < length nodes \<Longrightarrow> f k \<le> Max (f ` {..<length nodes})"
  by (rule Max_ge) auto

lemma find_root_total:
  assumes "ranked f nodes" "k < length nodes"
  shows "\<exists>r. find_root nodes k = Some r \<and> r < length nodes \<and> fst (nodes ! r) < 0 \<and> (r = k \<or> f k < f r)"
  using assms(2)
proof (induction "nat (Max (f ` {..<length nodes}) - f k)" arbitrary: k rule: less_induct)
  case less
  show ?case
  proof (cases "fst (nodes ! k) \<ge> 0")
    case False
    with less.prems show ?thesis
      by (subst find_root.simps) auto
  next
    case True
    define p where "p = nat (fst (nodes ! k))"
    from True less.prems assms(1) have p: "p < length nodes" "f k < f p"
      unfolding ranked_def p_def by auto
    from ranked_bound [OF p(1), of f] p(2)
    have "nat (Max (f ` {..<length nodes}) - f p) < nat (Max (f ` {..<length nodes}) - f k)"
      by linarith
    from less.hyps [OF this p(1)] obtain r where
      r: "find_root nodes p = Some r" "r < length nodes" "fst (nodes ! r) < 0" "r = p \<or> f p < f r"
      by blast
    have "find_root nodes k = find_root nodes p"
      using True less.prems unfolding p_def by (subst find_root.simps) simp
    with r p show ?thesis by auto
  qed
qed

lemma find_root_agree:
  assumes "ranked f nodes" "length nodes' = length nodes" "x < length nodes"
    and "\<forall>y < length nodes. f x \<le> f y \<longrightarrow> fst (nodes' ! y) = fst (nodes ! y)"
  shows "find_root nodes' x = find_root nodes x"
  using assms(3,4)
proof (induction "nat (Max (f ` {..<length nodes}) - f x)" arbitrary: x rule: less_induct)
  case less
  have same: "fst (nodes' ! x) = fst (nodes ! x)"
    using less.prems by auto
  show ?case
  proof (cases "fst (nodes ! x) \<ge> 0")
    case False
    with less.prems same assms(2) show ?thesis
      by (subst find_root.simps, subst (2) find_root.simps) auto
  next
    case True
    define p where "p = nat (fst (nodes ! x))"
    from True less.prems assms(1) have p: "p < length nodes" "f x < f p"
      unfolding ranked_def p_def by auto
    from ranked_bound [OF p(1), of f] p(2)
    have m: "nat (Max (f ` {..<length nodes}) - f p) < nat (Max (f ` {..<length nodes}) - f x)"
      by linarith
    have "\<forall>y<length nodes. f p \<le> f y \<longrightarrow> fst (nodes' ! y) = fst (nodes ! y)"
      using less.prems(2) p(2) by auto
    from less.hyps [OF m p(1) this]
    have IH: "find_root nodes' p = find_root nodes p" .
    have 1: "find_root nodes x = find_root nodes p"
      using True less.prems unfolding p_def by (subst find_root.simps) simp
    have 2: "find_root nodes' x = find_root nodes' p"
      using True less.prems same assms(2) unfolding p_def by (subst find_root.simps) simp
    from 1 2 IH show ?thesis by simp
  qed
qed

lemma find_root_link:
  assumes "ranked f nodes" "length nodes' = length nodes"
    and a: "a < length nodes" "fst (nodes ! a) < 0"
    and b: "b < length nodes" "fst (nodes ! b) < 0" "a \<noteq> b"
    and upd: "fst (nodes' ! a) = int b" "\<forall>y < length nodes. y \<noteq> a \<longrightarrow> fst (nodes' ! y) = fst (nodes ! y)"
    and x: "x < length nodes" "find_root nodes x = Some r"
  shows "find_root nodes' x = Some (if r = a then b else r)"
  using x
proof (induction "nat (Max (f ` {..<length nodes}) - f x)" arbitrary: x rule: less_induct)
  case less
  have fb: "find_root nodes' b = Some b"
    using b upd assms(2) by (subst find_root.simps) auto
  show ?case
  proof (cases "x = a")
    case True
    have "find_root nodes a = Some a"
      using a by (subst find_root.simps) auto
    with less.prems True have ra: "r = a" by simp
    have "find_root nodes' a = find_root nodes' b"
      using a upd assms(2) by (subst find_root.simps) auto
    with fb ra True show ?thesis by simp
  next
    case False
    with upd less.prems have same: "fst (nodes' ! x) = fst (nodes ! x)" by auto
    show ?thesis
    proof (cases "fst (nodes ! x) \<ge> 0")
      case neg: False
      have "find_root nodes x = Some x"
        using neg less.prems by (subst find_root.simps) auto
      with less.prems have rx: "r = x" by simp
      have "find_root nodes' x = Some x"
        using neg less.prems same assms(2) by (subst find_root.simps) auto
      with rx False show ?thesis by simp
    next
      case True
      define p where "p = nat (fst (nodes ! x))"
      from True less.prems assms(1) have p: "p < length nodes" "f x < f p"
        unfolding ranked_def p_def by auto
      from ranked_bound [OF p(1), of f] p(2)
      have m: "nat (Max (f ` {..<length nodes}) - f p) < nat (Max (f ` {..<length nodes}) - f x)"
        by linarith
      have 1: "find_root nodes x = find_root nodes p"
        using True less.prems unfolding p_def by (subst find_root.simps) simp
      have 2: "find_root nodes' x = find_root nodes' p"
        using True less.prems same assms(2) unfolding p_def by (subst find_root.simps) simp
      from 1 less.prems have "find_root nodes p = Some r" by simp
      from less.hyps [OF m p(1) this] 2 show ?thesis by simp
    qed
  qed
qed

lemma find_root_shortcut:
  assumes "ranked f nodes" "length nodes' = length nodes"
    and k: "k < length nodes" "find_root nodes k = Some rt" "fst (nodes ! k) \<ge> 0"
    and upd: "fst (nodes' ! k) = int rt" "\<forall>y < length nodes. y \<noteq> k \<longrightarrow> fst (nodes' ! y) = fst (nodes ! y)"
    and x: "x < length nodes"
  shows "find_root nodes' x = find_root nodes x"
  using x
proof (induction "nat (Max (f ` {..<length nodes}) - f x)" arbitrary: x rule: less_induct)
  case less
  from find_root_total [OF assms(1) k(1)] k(2)
  have rt: "rt < length nodes" "fst (nodes ! rt) < 0" by auto
  with k have "rt \<noteq> k" by auto
  with rt upd have frt: "find_root nodes' rt = Some rt"
    using assms(2) by (subst find_root.simps) auto
  show ?case
  proof (cases "x = k")
    case True
    have "find_root nodes' k = find_root nodes' rt"
      using k upd assms(2) by (subst find_root.simps) auto
    with frt k True show ?thesis by simp
  next
    case False
    with upd less.prems have same: "fst (nodes' ! x) = fst (nodes ! x)" by auto
    show ?thesis
    proof (cases "fst (nodes ! x) \<ge> 0")
      case neg: False
      with less.prems same assms(2) show ?thesis
        by (subst find_root.simps, subst (2) find_root.simps) auto
    next
      case True
      define p where "p = nat (fst (nodes ! x))"
      from True less.prems assms(1) have p: "p < length nodes" "f x < f p"
        unfolding ranked_def p_def by auto
      from ranked_bound [OF p(1), of f] p(2)
      have m: "nat (Max (f ` {..<length nodes}) - f p) < nat (Max (f ` {..<length nodes}) - f x)"
        by linarith
      have 1: "find_root nodes x = find_root nodes p"
        using True less.prems unfolding p_def by (subst find_root.simps) simp
      have 2: "find_root nodes' x = find_root nodes' p"
        using True less.prems same assms(2) unfolding p_def by (subst find_root.simps) simp
      from less.hyps [OF m p(1)] 1 2 show ?thesis by simp
    qed
  qed
qed

subsection \<open>Union and path compression keep the invariant\<close>

lemma ranked_cong:
  "ranked f nodes \<Longrightarrow> \<forall>k < length nodes. g k = f k \<Longrightarrow> ranked g nodes"
  unfolding ranked_def by auto

lemma compress_total:
  assumes "ranked f nodes" "k < length nodes" "find_root nodes k = Some rt"
  shows "\<exists>nodes'. compress rt nodes k = Some nodes' \<and> length nodes' = length nodes \<and>
           ranked f nodes' \<and> map snd nodes' = map snd nodes \<and>
           (\<forall>x < length nodes. find_root nodes' x = find_root nodes x)"
  using assms
proof (induction "nat (Max (f ` {..<length nodes}) - f k)" arbitrary: nodes k rule: less_induct)
  case less
  show ?case
  proof (cases "fst (nodes ! k) \<ge> 0")
    case False
    with less.prems show ?thesis
      by (subst compress.simps) auto
  next
    case True
    define p where "p = nat (fst (nodes ! k))"
    define nodes1 where "nodes1 = nodes[k := (int rt, snd (nodes ! k))]"
    from True less.prems have p: "p < length nodes" "f k < f p"
      unfolding ranked_def p_def by auto
    from find_root_total [OF less.prems(1,2)] less.prems(3)
    have rt: "rt < length nodes" "fst (nodes ! rt) < 0" "rt = k \<or> f k < f rt" by auto
    with True have rtk: "rt \<noteq> k" "f k < f rt" by auto
    have len1: "length nodes1 = length nodes" by (simp add: nodes1_def)
    have r1: "ranked f nodes1"
      using less.prems(1,2) rt(1) rtk(2) unfolding ranked_def nodes1_def
      by (auto simp: nth_list_update)
    have upd: "fst (nodes1 ! k) = int rt"
      "\<forall>y < length nodes. y \<noteq> k \<longrightarrow> fst (nodes1 ! y) = fst (nodes ! y)"
      using less.prems(2) by (auto simp: nodes1_def)
    have same: "\<forall>x < length nodes. find_root nodes1 x = find_root nodes x"
      using find_root_shortcut [OF less.prems(1) len1 less.prems(2,3) True upd] by blast
    have "find_root nodes k = find_root nodes p"
      using True less.prems unfolding p_def by (subst find_root.simps) simp
    with same p less.prems have fp: "find_root nodes1 p = Some rt" by simp
    from ranked_bound [OF p(1), of f] p(2)
    have m: "nat (Max (f ` {..<length nodes1}) - f p) < nat (Max (f ` {..<length nodes}) - f k)"
      unfolding len1 by linarith
    from less.hyps [OF m r1 _ fp] p(1) len1 obtain nodes' where
      n': "compress rt nodes1 p = Some nodes'" "length nodes' = length nodes1" "ranked f nodes'"
        "map snd nodes' = map snd nodes1" "\<forall>x < length nodes1. find_root nodes' x = find_root nodes1 x"
      by auto
    have c: "compress rt nodes k = compress rt nodes1 p"
      using True less.prems(2) unfolding p_def nodes1_def by (subst compress.simps) simp
    have snd1: "map snd nodes1 = map snd nodes"
      unfolding nodes1_def using less.prems(2) by (simp add: map_update list_update_same_conv)
    from c n' len1 same snd1 show ?thesis by auto
  qed
qed

lemma link_props:
  assumes "inv2 nodes" "i < length nodes" "j < length nodes"
    and "find_root nodes i = Some rt" "find_root nodes j = Some root2" "root2 \<noteq> rt"
    and "link nodes rt root2 = (nodes1, rt')"
  shows "length nodes1 = length nodes \<and> inv2 nodes1 \<and> fst (nodes1 ! rt') < 0 \<and>
         find_root nodes1 i = Some rt' \<and> find_root nodes1 j = Some rt'"
proof -
  let ?f = "\<lambda>k. snd (nodes ! k)"
  from assms(1) have rk: "ranked ?f nodes" and nn: "\<forall>k < length nodes. 0 \<le> snd (nodes ! k)"
    unfolding inv2_def by auto
  from find_root_total [OF rk assms(2)] assms(4)
  have rt: "rt < length nodes" "fst (nodes ! rt) < 0" by auto
  from find_root_total [OF rk assms(3)] assms(5)
  have r2: "root2 < length nodes" "fst (nodes ! root2) < 0" by auto
  show ?thesis
  proof (cases "snd (nodes ! rt) > snd (nodes ! root2)")
    case True
    with assms(7) have n1: "nodes1 = nodes[root2 := (int rt, snd (nodes ! root2))]" and r': "rt' = rt"
      by (auto simp: link_def Let_def)
    have len: "length nodes1 = length nodes" by (simp add: n1)
    have i2: "inv2 nodes1"
      using rk nn True rt r2 assms(6) unfolding inv2_def ranked_def n1
      by (auto simp: nth_list_update)
    have upd: "fst (nodes1 ! root2) = int rt"
      "\<forall>y < length nodes. y \<noteq> root2 \<longrightarrow> fst (nodes1 ! y) = fst (nodes ! y)"
      using r2 by (auto simp: n1)
    from find_root_link [OF rk len r2 rt assms(6) upd assms(2,4)] assms(6)
    have fi: "find_root nodes1 i = Some rt" by simp
    from find_root_link [OF rk len r2 rt assms(6) upd assms(3,5)]
    have fj: "find_root nodes1 j = Some rt" by simp
    from len i2 fi fj rt assms(6) r' show ?thesis by (simp add: n1)
  next
    case False
    define d :: int where "d = (if snd (nodes ! rt) = snd (nodes ! root2) then 1 else 0)"
    from False assms(7) assms(6) rt r2
    have n1: "nodes1 = (nodes[rt := (int root2, snd (nodes ! rt))])[root2 := (fst (nodes ! root2), snd (nodes ! root2) + d)]"
      and r': "rt' = root2"
      by (auto simp: link_def Let_def d_def)
    have len: "length nodes1 = length nodes" by (simp add: n1)
    have d: "0 \<le> d" "snd (nodes ! rt) < snd (nodes ! root2) + d"
      using False by (auto simp: d_def)
    have i2: "inv2 nodes1"
      unfolding inv2_def ranked_def
    proof (intro conjI allI impI)
      fix k assume k: "k < length nodes1"
      show "0 \<le> snd (nodes1 ! k)"
        using k nn d(1) rt r2 by (auto simp: n1 nth_list_update)
    next
      fix k assume k: "k < length nodes1" and par: "0 \<le> fst (nodes1 ! k)"
      show "nat (fst (nodes1 ! k)) < length nodes1"
        using k par rk rt r2 unfolding ranked_def by (auto simp: n1 nth_list_update split: if_splits)
    next
      fix k assume k: "k < length nodes1" and par: "0 \<le> fst (nodes1 ! k)"
      have k2: "k \<noteq> root2" using par r2 rt by (auto simp: n1 nth_list_update split: if_splits)
      show "snd (nodes1 ! k) < snd (nodes1 ! nat (fst (nodes1 ! k)))"
      proof (cases "k = rt")
        case True
        then show ?thesis using d(2) rt r2 assms(6) by (simp add: n1)
      next
        case False
        with k2 k have e: "nodes1 ! k = nodes ! k" by (simp add: n1)
        with par k rk have p: "nat (fst (nodes ! k)) < length nodes"
          "snd (nodes ! k) < snd (nodes ! nat (fst (nodes ! k)))"
          unfolding ranked_def len by auto
        have "snd (nodes ! nat (fst (nodes ! k))) \<le> snd (nodes1 ! nat (fst (nodes ! k)))"
          using p(1) d(1) rt r2 by (auto simp: n1 nth_list_update)
        with p e show ?thesis by simp
      qed
    qed
    have upd: "fst (nodes1 ! rt) = int root2"
      "\<forall>y < length nodes. y \<noteq> rt \<longrightarrow> fst (nodes1 ! y) = fst (nodes ! y)"
      using rt r2 assms(6) by (auto simp: n1 nth_list_update)
    have ne: "rt \<noteq> root2" using assms(6) by simp
    from find_root_link [OF rk len rt r2 ne upd assms(2,4)]
    have fi: "find_root nodes1 i = Some root2" by simp
    from find_root_link [OF rk len rt r2 ne upd assms(3,5)] assms(6)
    have fj: "find_root nodes1 j = Some root2" by simp
    from len i2 fi fj r2 r' show ?thesis by (simp add: n1)
  qed
qed

lemma inv2_compress:
  assumes "inv2 nodes" "k < length nodes" "find_root nodes k = Some rt"
  shows "\<exists>nodes'. compress rt nodes k = Some nodes' \<and> length nodes' = length nodes \<and>
           inv2 nodes' \<and> (\<forall>x < length nodes. find_root nodes' x = find_root nodes x)"
proof -
  from assms(1) have rk: "ranked (\<lambda>k. snd (nodes ! k)) nodes" by (simp add: inv2_def)
  from compress_total [OF rk assms(2,3)] obtain nodes' where
    n': "compress rt nodes k = Some nodes'" "length nodes' = length nodes"
      "ranked (\<lambda>k. snd (nodes ! k)) nodes'" "map snd nodes' = map snd nodes"
      "\<forall>x < length nodes. find_root nodes' x = find_root nodes x"
    by blast
  have s: "\<forall>k < length nodes. snd (nodes' ! k) = snd (nodes ! k)"
    using n'(2,4) by (metis nth_map)
  then have "inv2 nodes'"
    using assms(1) n'(2,3) unfolding inv2_def
    by (auto intro: ranked_cong [OF n'(3)])
  with n' show ?thesis by blast
qed

lemma unite_total:
  assumes "inv2 nodes" "i < length nodes" "j < length nodes"
    and "find_root nodes i = Some rt" "find_root nodes j = Some root2" "root2 \<noteq> rt"
  shows "\<exists>nodes' rt'. unite nodes i j rt root2 = Some (nodes', rt') \<and>
           length nodes' = length nodes \<and> inv2 nodes' \<and> find_root nodes' i = Some rt'"
proof -
  obtain nodes1 rt' where l: "link nodes rt root2 = (nodes1, rt')" by (cases "link nodes rt root2")
  from link_props [OF assms l]
  have p1: "length nodes1 = length nodes" "inv2 nodes1" "fst (nodes1 ! rt') < 0"
    "find_root nodes1 i = Some rt'" "find_root nodes1 j = Some rt'" by auto
  from inv2_compress [OF p1(2) _ p1(5)] assms(3) p1(1) obtain nodes2 where
    n2: "compress rt' nodes1 j = Some nodes2" "length nodes2 = length nodes1" "inv2 nodes2"
      "\<forall>x < length nodes1. find_root nodes2 x = find_root nodes1 x" by auto
  from n2(4) p1 assms(2) have fi: "find_root nodes2 i = Some rt'" by simp
  from inv2_compress [OF n2(3) _ fi] assms(2) p1(1) n2(2) obtain nodes3 where
    n3: "compress rt' nodes2 i = Some nodes3" "length nodes3 = length nodes2" "inv2 nodes3"
      "\<forall>x < length nodes2. find_root nodes3 x = find_root nodes2 x" by auto
  from n3(4) fi assms(2) p1(1) n2(2) have "find_root nodes3 i = Some rt'" by simp
  with l p1 n2 n3 show ?thesis
    by (simp add: unite_def)
qed

subsection \<open>The loops\<close>

lemma join_loop_total:
  assumes "inv2 nodes" "i < length nodes" "set js \<subseteq> {..<length nodes}" "find_root nodes i = Some rt"
  shows "\<exists>nodes' rt'. join_loop sdm vec i js (nodes, rt) = Some (nodes', rt') \<and>
           length nodes' = length nodes \<and> inv2 nodes'"
  using assms
proof (induction js arbitrary: nodes rt)
  case Nil
  then show ?case by simp
next
  case (Cons j js)
  from Cons.prems have j: "j < length nodes" and js: "set js \<subseteq> {..<length nodes}" by auto
  from Cons.prems(1) have rk: "ranked (\<lambda>k. snd (nodes ! k)) nodes" by (simp add: inv2_def)
  from find_root_total [OF rk j] obtain root2 where r2: "find_root nodes j = Some root2" by blast
  show ?case
  proof (cases "i = j \<or> \<not> Similar sdm (vec ! i) (vec ! j) \<or> root2 = rt")
    case True
    with Cons.IH [OF Cons.prems(1,2) js Cons.prems(4)] r2 show ?thesis by auto
  next
    case False
    then have ne: "root2 \<noteq> rt" by simp
    from unite_total [OF Cons.prems(1,2) j Cons.prems(4) r2 ne] obtain nodes1 rt1 where
      u: "unite nodes i j rt root2 = Some (nodes1, rt1)" "length nodes1 = length nodes"
        "inv2 nodes1" "find_root nodes1 i = Some rt1" by blast
    from Cons.IH [OF u(3) _ _ u(4)] Cons.prems(2) js u(2) obtain nodes' rt' where
      "join_loop sdm vec i js (nodes1, rt1) = Some (nodes', rt')" "length nodes' = length nodes1"
      "inv2 nodes'" by auto
    with False r2 u show ?thesis by auto
  qed
qed

lemma merge_loop_total:
  assumes "inv2 nodes" "set is \<subseteq> {..<length nodes}" "length vec = length nodes"
  shows "\<exists>nodes'. merge_loop sdm vec is nodes = Some nodes' \<and> length nodes' = length nodes \<and> inv2 nodes'"
  using assms
proof (induction "is" arbitrary: nodes)
  case Nil
  then show ?case by simp
next
  case (Cons i "is")
  from Cons.prems have i: "i < length nodes" and rest: "set is \<subseteq> {..<length nodes}" by auto
  from Cons.prems(1) have rk: "ranked (\<lambda>k. snd (nodes ! k)) nodes" by (simp add: inv2_def)
  from find_root_total [OF rk i] obtain rt where rt: "find_root nodes i = Some rt" by blast
  have "set [0..<length vec] \<subseteq> {..<length nodes}" using Cons.prems(3) by auto
  from join_loop_total [OF Cons.prems(1) i this rt] obtain nodes1 rt1 where
    j: "join_loop sdm vec i [0..<length vec] (nodes, rt) = Some (nodes1, rt1)"
      "length nodes1 = length nodes" "inv2 nodes1" by blast
  from Cons.IH [OF j(3)] rest j(2) Cons.prems(3) obtain nodes' where
    "merge_loop sdm vec is nodes1 = Some nodes'" "length nodes' = length nodes1" "inv2 nodes'"
    by auto
  with rt j show ?case by auto
qed

lemma label_loop_total:
  assumes "ranked f nodes" "set is \<subseteq> {..<length nodes}" "0 \<le> nclasses"
    and "\<forall>r < length nodes. fst (nodes ! r) < 0 \<longrightarrow> - nclasses \<le> snd (nodes ! r)"
    and "length labels = length nodes" "distinct is"
  shows "\<exists>nodes' nclasses' labels'.
           label_loop is (nodes, nclasses, labels) = Some (nodes', nclasses', labels') \<and>
           nclasses \<le> nclasses' \<and> length labels' = length labels \<and>
           (\<forall>k \<in> set is. 0 \<le> labels' ! k \<and> labels' ! k < nclasses') \<and>
           (\<forall>k < length labels. k \<notin> set is \<longrightarrow> labels' ! k = labels ! k) \<and>
           (\<forall>c. nclasses \<le> c \<and> c < nclasses' \<longrightarrow> (\<exists>k \<in> set is. labels' ! k = c)) \<and>
           (is \<noteq> [] \<longrightarrow> 1 \<le> nclasses')"
  using assms
proof (induction "is" arbitrary: nodes nclasses labels)
  case Nil
  then show ?case by simp
next
  case (Cons i "is")
  from Cons.prems have i: "i < length nodes" "i \<notin> set is" and rest: "set is \<subseteq> {..<length nodes}" "distinct is"
    by auto
  from find_root_total [OF Cons.prems(1) i(1)] obtain rt where
    rt: "find_root nodes i = Some rt" "rt < length nodes" "fst (nodes ! rt) < 0" by blast
  define nodes1 where "nodes1 = (if snd (nodes ! rt) \<ge> 0 then nodes[rt := (fst (nodes ! rt), NOT nclasses)] else nodes)"
  define ncl1 where "ncl1 = (if snd (nodes ! rt) \<ge> 0 then nclasses + 1 else nclasses)"
  define v where "v = NOT (snd (nodes1 ! rt))"
  define labels1 where "labels1 = labels[i := v]"
  have step: "label_loop (i # is) (nodes, nclasses, labels) = label_loop is (nodes1, ncl1, labels1)"
    using rt(1) by (simp add: nodes1_def ncl1_def labels1_def v_def)
  have len1: "length nodes1 = length nodes" by (simp add: nodes1_def)
  have r1: "ranked f nodes1"
    using Cons.prems(1) rt(2) unfolding ranked_def nodes1_def by (auto simp: nth_list_update)
  have n1: "0 \<le> ncl1" "nclasses \<le> ncl1" "1 \<le> ncl1"
    using Cons.prems(3,4) rt(2,3) by (auto simp: ncl1_def)
  have roots1: "\<forall>r < length nodes1. fst (nodes1 ! r) < 0 \<longrightarrow> - ncl1 \<le> snd (nodes1 ! r)"
    using Cons.prems(4) rt(2) unfolding nodes1_def ncl1_def
    by (auto simp: nth_list_update not_int_def)
  have v: "0 \<le> v" "v < ncl1" "nclasses \<le> v \<or> ncl1 = nclasses"
    using Cons.prems(3,4) rt(2,3) unfolding v_def nodes1_def ncl1_def
    by (auto simp: not_int_def)
  have ll: "length labels1 = length nodes1" using Cons.prems(5) by (simp add: labels1_def len1)
  from Cons.IH [OF r1 _ n1(1) roots1 ll rest(2)] rest(1) len1 obtain nodes' nclasses' labels' where
    IH: "label_loop is (nodes1, ncl1, labels1) = Some (nodes', nclasses', labels')"
      "ncl1 \<le> nclasses'" "length labels' = length labels1"
      "\<forall>k \<in> set is. 0 \<le> labels' ! k \<and> labels' ! k < nclasses'"
      "\<forall>k < length labels1. k \<notin> set is \<longrightarrow> labels' ! k = labels1 ! k"
      "\<forall>c. ncl1 \<le> c \<and> c < nclasses' \<longrightarrow> (\<exists>k \<in> set is. labels' ! k = c)"
    by auto
  have li: "labels' ! i = v"
    using IH(5) i Cons.prems(5) by (simp add: labels1_def)
  have a: "\<forall>k \<in> set (i # is). 0 \<le> labels' ! k \<and> labels' ! k < nclasses'"
    using IH(4) li v IH(2) by auto
  have b: "\<forall>k < length labels. k \<notin> set (i # is) \<longrightarrow> labels' ! k = labels ! k"
    using IH(5) by (auto simp: labels1_def)
  have c: "\<forall>c. nclasses \<le> c \<and> c < nclasses' \<longrightarrow> (\<exists>k \<in> set (i # is). labels' ! k = c)"
  proof (intro allI impI)
    fix c assume c: "nclasses \<le> c \<and> c < nclasses'"
    show "\<exists>k \<in> set (i # is). labels' ! k = c"
    proof (cases "ncl1 \<le> c")
      case True
      with c IH(6) show ?thesis by auto
    next
      case False
      with c have "c = nclasses" "ncl1 = nclasses + 1" "0 \<le> snd (nodes ! rt)"
        by (auto simp: ncl1_def split: if_splits)
      then have "v = c" using rt(2) by (simp add: v_def nodes1_def)
      with li show ?thesis by auto
    qed
  qed
  from step IH(1,2,3) n1 a b c show ?case
    by (auto simp: labels1_def)
qed

lemma inv2_init: "inv2 (replicate N (- 1, 0))"
  by (simp add: inv2_def ranked_def)

lemma Partition_total:
  "\<exists>nclasses labels. Partition vec sdm = Some (nclasses, labels) \<and> 0 \<le> nclasses \<and>
      length labels = length vec \<and>
      (\<forall>i < length vec. 0 \<le> labels ! i \<and> labels ! i < nclasses) \<and>
      (\<forall>c. 0 \<le> c \<and> c < nclasses \<longrightarrow> (\<exists>i < length vec. labels ! i = c)) \<and>
      (vec \<noteq> [] \<longrightarrow> 1 \<le> nclasses)"
proof -
  define N where "N = length vec"
  have s0: "set [0..<N] \<subseteq> {..<length (replicate N (- 1 :: int, 0 :: int))}" by auto
  have l0: "length vec = length (replicate N (- 1 :: int, 0 :: int))" by (simp add: N_def)
  from merge_loop_total [OF inv2_init s0 l0, of sdm] obtain nodes where
    m0: "merge_loop sdm vec [0..<N] (replicate N (- 1, 0)) = Some nodes"
      "length nodes = length (replicate N (- 1 :: int, 0 :: int))" "inv2 nodes"
    by blast
  note m = m0(1) m0(2) [simplified] m0(3)
  from m(3) have rk: "ranked (\<lambda>k. snd (nodes ! k)) nodes"
    and nn: "\<forall>r < length nodes. fst (nodes ! r) < 0 \<longrightarrow> - 0 \<le> snd (nodes ! r)"
    by (auto simp: inv2_def)
  have sub: "set [0..<N] \<subseteq> {..<length nodes}" using m(2) by auto
  have ll: "length (replicate N (0::int)) = length nodes" using m(2) by simp
  have z: "(0::int) \<le> 0" by simp
  have dist: "distinct [0..<N]" by simp
  from label_loop_total [OF rk sub z nn ll dist] obtain nodes' nclasses labels where
    l: "label_loop [0..<N] (nodes, 0, replicate N 0) = Some (nodes', nclasses, labels)"
      "0 \<le> nclasses" "length labels = length (replicate N (0::int))"
      "\<forall>k \<in> set [0..<N]. 0 \<le> labels ! k \<and> labels ! k < nclasses"
      "\<forall>c. 0 \<le> c \<and> c < nclasses \<longrightarrow> (\<exists>k \<in> set [0..<N]. labels ! k = c)"
      "[0..<N] \<noteq> [] \<longrightarrow> 1 \<le> nclasses"
    by blast
  have "Partition vec sdm = Some (nclasses, labels)"
    using m(1) l(1) by (simp add: Partition_def N_def [symmetric])
  moreover have "\<forall>c. 0 \<le> c \<and> c < nclasses \<longrightarrow> (\<exists>i < length vec. labels ! i = c)"
  proof (intro allI impI)
    fix c assume "0 \<le> c \<and> c < nclasses"
    with l(5) obtain k where "k \<in> set [0..<N]" "labels ! k = c" by blast
    then show "\<exists>i < length vec. labels ! i = c" by (auto simp: N_def)
  qed
  moreover have "length labels = length vec" using l(3) by (simp add: N_def)
  moreover have "\<forall>i < length vec. 0 \<le> labels ! i \<and> labels ! i < nclasses"
    using l(4) by (simp add: N_def)
  moreover have "vec \<noteq> [] \<longrightarrow> 1 \<le> nclasses"
    using l(6) by (simp add: N_def)
  ultimately show ?thesis
    using l(2) by blast
qed

section \<open>Clustering\<close>

lemma accumulate_fold:
  assumes "\<forall>i \<in> set is. i < length cands \<and> 0 \<le> labels ! i \<and> nat (labels ! i) < length buffer"
  shows "\<exists>buffer'. accumulate cands labels is buffer = Some buffer' \<and> length buffer' = length buffer \<and>
           (\<forall>c < length buffer. buffer' ! c =
                foldl (absorb cands) (buffer ! c) (filter (\<lambda>i. labels ! i = int c) is))"
  using assms
proof (induction "is" arbitrary: buffer)
  case Nil
  then show ?case by simp
next
  case (Cons i "is")
  define cls where "cls = nat (labels ! i)"
  define buffer1 where "buffer1 = buffer[cls := absorb cands (buffer ! cls) i]"
  from Cons.prems have i: "i < length cands" "0 \<le> labels ! i" "cls < length buffer"
    by (auto simp: cls_def)
  have step: "accumulate cands labels (i # is) buffer = accumulate cands labels is buffer1"
    using i by (simp add: Let_def buffer1_def cls_def absorb_def)
  have "\<forall>i \<in> set is. i < length cands \<and> 0 \<le> labels ! i \<and> nat (labels ! i) < length buffer1"
    using Cons.prems by (simp add: buffer1_def)
  from Cons.IH [OF this] obtain buffer' where
    IH: "accumulate cands labels is buffer1 = Some buffer'" "length buffer' = length buffer1"
      "\<forall>c < length buffer1. buffer' ! c =
          foldl (absorb cands) (buffer1 ! c) (filter (\<lambda>i. labels ! i = int c) is)"
    by blast
  have all: "\<forall>c < length buffer. buffer' ! c =
          foldl (absorb cands) (buffer ! c) (filter (\<lambda>i. labels ! i = int c) (i # is))"
  proof (intro allI impI)
    fix c assume c: "c < length buffer"
    then have c1: "c < length buffer1" by (simp add: buffer1_def)
    have eq: "labels ! i = int c \<longleftrightarrow> c = cls"
      using i(2) by (auto simp: cls_def)
    from IH(3) c1 have b': "buffer' ! c =
          foldl (absorb cands) (buffer1 ! c) (filter (\<lambda>i. labels ! i = int c) is)" by blast
    show "buffer' ! c = foldl (absorb cands) (buffer ! c) (filter (\<lambda>i. labels ! i = int c) (i # is))"
    proof (cases "c = cls")
      case True
      then have "buffer1 ! c = absorb cands (buffer ! c) i"
        using c by (simp add: buffer1_def)
      with b' eq True show ?thesis by simp
    next
      case False
      then have "buffer1 ! c = buffer ! c"
        by (simp add: buffer1_def)
      with b' eq False show ?thesis by simp
    qed
  qed
  have "length buffer' = length buffer" using IH(2) by (simp add: buffer1_def)
  with step IH(1) all show ?case by simp
qed

lemma foldl_absorb:
  "foldl (absorb cands) b ms =
     \<lparr>rect = Rect_add (rect b) (Rect_sum (map (\<lambda>i. rect (cands ! i)) ms)),
      weight = weight b + int (length ms),
      tag = (if ms = [] then tag b else tag (cands ! last ms))\<rparr>"
proof (induction ms arbitrary: b)
  case Nil
  show ?case by (simp add: Rect_add_def Rect_sum_def)
next
  case (Cons m ms)
  show ?case
    by (simp add: Cons.IH) (simp add: absorb_def Rect_add_def Rect_sum_def)
qed

lemma clusters_total:
  "\<exists>nclasses labels buffer.
      Partition cands sdm = Some (nclasses, labels) \<and> clusters cvt cands sdm = Some buffer \<and>
      length buffer = nat nclasses \<and>
      (\<forall>c < length buffer. members labels c \<noteq> [] \<and>
         buffer ! c = \<lparr>rect = Rect_div cvt (Rect_sum (map (\<lambda>i. rect (cands ! i)) (members labels c)))
                                   (real (length (members labels c))),
                       weight = int (length (members labels c)),
                       tag = tag (cands ! last (members labels c))\<rparr>)"
proof -
  from Partition_total [of cands sdm] obtain nclasses labels where
    P: "Partition cands sdm = Some (nclasses, labels)" "0 \<le> nclasses" "length labels = length cands"
      "\<forall>i < length cands. 0 \<le> labels ! i \<and> labels ! i < nclasses"
      "\<forall>c. 0 \<le> c \<and> c < nclasses \<longrightarrow> (\<exists>i < length cands. labels ! i = c)"
    by blast
  let ?b0 = "replicate (nat nclasses) Object0"
  have "\<forall>i \<in> set [0..<length labels]. i < length cands \<and> 0 \<le> labels ! i \<and> nat (labels ! i) < length ?b0"
    using P(3,4) by auto
  from accumulate_fold [OF this] obtain buffer where
    a: "accumulate cands labels [0..<length labels] ?b0 = Some buffer" "length buffer = length ?b0"
      "\<forall>c < length ?b0. buffer ! c = foldl (absorb cands) (?b0 ! c) (members labels c)"
    unfolding members_def by (elim exE conjE)
  have cl: "clusters cvt cands sdm = Some (map (average cvt) buffer)"
    using P(1) a(1) by (simp add: clusters_def)
  have "\<forall>c < length (map (average cvt) buffer). members labels c \<noteq> [] \<and>
         map (average cvt) buffer ! c = \<lparr>rect = Rect_div cvt (Rect_sum (map (\<lambda>i. rect (cands ! i)) (members labels c)))
                                   (real (length (members labels c))),
                       weight = int (length (members labels c)),
                       tag = tag (cands ! last (members labels c))\<rparr>"
  proof (intro allI impI)
    fix c assume "c < length (map (average cvt) buffer)"
    with a(2) have c: "c < nat nclasses" by simp
    then have "0 \<le> int c \<and> int c < nclasses" by linarith
    with P(5) obtain i where i: "i < length cands" "labels ! i = int c" by blast
    then have ne: "members labels c \<noteq> []"
      using P(3) by (auto simp: members_def filter_empty_conv)
    have "buffer ! c = foldl (absorb cands) Object0 (members labels c)"
      using a(3) c by simp
    then have "map (average cvt) buffer ! c = average cvt (foldl (absorb cands) Object0 (members labels c))"
      using c a(2) by simp
    also have "\<dots> = \<lparr>rect = Rect_div cvt (Rect_sum (map (\<lambda>i. rect (cands ! i)) (members labels c)))
                                   (real (length (members labels c))),
                       weight = int (length (members labels c)),
                       tag = tag (cands ! last (members labels c))\<rparr>"
      using ne by (simp add: foldl_absorb average_def Object0_def Rect0_def Rect_add_def Rect_sum_def)
    finally show "members labels c \<noteq> [] \<and>
         map (average cvt) buffer ! c = \<lparr>rect = Rect_div cvt (Rect_sum (map (\<lambda>i. rect (cands ! i)) (members labels c)))
                                   (real (length (members labels c))),
                       weight = int (length (members labels c)),
                       tag = tag (cands ! last (members labels c))\<rparr>"
      using ne by simp
  qed
  moreover have "length (map (average cvt) buffer) = nat nclasses" using a(2) by simp
  ultimately show ?thesis using P(1) cl by blast
qed

lemma size_t_nonneg: "0 \<le> n \<Longrightarrow> size_t_of_int n < g \<longleftrightarrow> n < int g"
  by (auto simp: size_t_of_int_def)

lemma suppress_scan_end:
  assumes "\<forall>k < length buffer. 0 \<le> weight (buffer ! k)" "set js \<subseteq> {..<length buffer}"
  shows "suppress_scan Round sdm g buffer i js = length buffer \<longleftrightarrow>
           \<not> list_ex (suppressed_by Round sdm g buffer i) js"
  using assms(2)
proof (induction js)
  case Nil
  then show ?case by simp
next
  case (Cons j js)
  then have j: "j < length buffer" and js: "set js \<subseteq> {..<length buffer}" by auto
  from assms(1) j have w: "0 \<le> weight (buffer ! j)" by simp
  show ?case
    using Cons.IH [OF js] j
    by (auto simp: Let_def size_t_nonneg [OF w] suppressed_by_def nested_in_def)
qed

lemma suppress_loop_filter:
  assumes "\<forall>k < length buffer. 0 \<le> weight (buffer ! k)" "set is \<subseteq> {..<length buffer}"
  shows "suppress_loop Round sdm g buffer is out =
           out @ map ((!) buffer) (filter (emitted Round sdm g buffer) is)"
  using assms(2)
proof (induction "is" arbitrary: out)
  case Nil
  then show ?case by simp
next
  case (Cons i "is")
  then have i: "i < length buffer" and rest: "set is \<subseteq> {..<length buffer}" by auto
  from assms(1) i have w: "0 \<le> weight (buffer ! i)" by simp
  have sc: "suppress_scan Round sdm g buffer i [0..<length buffer] = length buffer \<longleftrightarrow>
           \<not> list_ex (suppressed_by Round sdm g buffer i) [0..<length buffer]"
    by (rule suppress_scan_end [OF assms(1)]) auto
  show ?case
    using Cons.IH [OF rest] sc
    by (auto simp: Let_def size_t_nonneg [OF w] emitted_def)
qed

text \<open>The rule for an emitted cluster with its quantifier written out.\<close>

lemma emitted_iff:
  "emitted Round sdm g buffer i \<longleftrightarrow>
     int g \<le> weight (buffer ! i) \<and>
     \<not> (\<exists>j < length buffer. j \<noteq> i \<and> int g \<le> weight (buffer ! j) \<and>
            nested_in Round sdm (rect (buffer ! i)) (rect (buffer ! j)) \<and>
            (weight (buffer ! j) > max 3 (weight (buffer ! i)) \<or> weight (buffer ! i) < 3))"
  by (auto simp: emitted_def suppressed_by_def list_ex_iff)

section \<open>The claims about clustering\<close>


text \<open>
  C10.  For every vector of \<open>N\<close> candidates \<^verbatim>\<open>Partition\<close> returns: its result is a class
  count \<open>nclasses \<ge> 0\<close> and a label vector of length \<open>N\<close> with \<open>0 \<le> labels[i] < nclasses\<close> for
  every \<open>i\<close>, and \<open>nclasses \<ge> 1\<close> when \<open>N \<ge> 1\<close>.  Hence the accumulation loop of
  \<^verbatim>\<open>GroupObjects\<close> over a buffer of \<open>nclasses\<close> entries makes no access outside the buffer
  (it returns a buffer).
\<close>

theorem Partition_labels_in_bounds:
  "\<exists>nclasses labels. Partition vec sdm = Some (nclasses, labels) \<and> 0 \<le> nclasses \<and>
      length labels = length vec \<and>
      (\<forall>i < length vec. 0 \<le> labels ! i \<and> labels ! i < nclasses) \<and>
      (vec \<noteq> [] \<longrightarrow> 1 \<le> nclasses) \<and>
      (\<exists>buffer. accumulate vec labels [0..<length labels] (replicate (nat nclasses) Object0) = Some buffer)"
proof -
  from Partition_total [of vec sdm] obtain nclasses labels where
    P: "Partition vec sdm = Some (nclasses, labels)" "0 \<le> nclasses" "length labels = length vec"
      "\<forall>i < length vec. 0 \<le> labels ! i \<and> labels ! i < nclasses"
      "vec \<noteq> [] \<longrightarrow> 1 \<le> nclasses"
    by blast
  have "\<forall>i \<in> set [0..<length labels]. i < length vec \<and> 0 \<le> labels ! i \<and>
          nat (labels ! i) < length (replicate (nat nclasses) Object0)"
    using P(3,4) by auto
  from accumulate_fold [OF this]
  have "\<exists>buffer. accumulate vec labels [0..<length labels] (replicate (nat nclasses) Object0) = Some buffer"
    by (elim exE conjE) (rule exI)
  with P show ?thesis by blast
qed

theorem Partition_labels_in_bounds_witness:
  "Partition sample_vec (1 / 5) = Some (2, [0, 0, 1]) \<and> sample_vec \<noteq> [] \<and>
   accumulate sample_vec [0, 0, 1] [0..<3] (replicate 2 Object0) \<noteq> None"
proof -
  have e: "Partition sample_vec (1 / 5) = Some (2, [0, 0, 1]) \<and> sample_vec \<noteq> [] \<and>
    accumulate sample_vec [0, 0, 1] [0..<3] (replicate 2 Object0) \<noteq> None"
    by code_simp
  from Partition_labels_in_bounds [of sample_vec "1 / 5"] e show ?thesis by blast
qed

text \<open>
  C4.  \<^verbatim>\<open>GroupObjects\<close> collapses every class of the partition to exactly one entry of the
  buffer (the buffer has \<open>nclasses\<close> entries and no class is empty).  The rectangle of the
  entry is the edge-by-edge sum of the member rectangles divided by the number of members,
  its weight is the number of members, and its tag is the tag of the member with the largest
  index, which is the last one added.
\<close>

theorem clusters_representatives:
  "\<exists>nclasses labels buffer.
      Partition cands sdm = Some (nclasses, labels) \<and> clusters cvt cands sdm = Some buffer \<and>
      length buffer = nat nclasses \<and>
      (\<forall>c < length buffer. members labels c \<noteq> [] \<and>
         buffer ! c = \<lparr>rect = Rect_div cvt (Rect_sum (map (\<lambda>i. rect (cands ! i)) (members labels c)))
                                   (real (length (members labels c))),
                       weight = int (length (members labels c)),
                       tag = tag (cands ! last (members labels c))\<rparr>)"
  by (rule clusters_total)

theorem clusters_representatives_witness:
  "Partition sample_vec (1 / 5) = Some (2, [0, 0, 1]) \<and>
   clusters sample_round sample_vec (1 / 5) =
     Some [\<lparr>rect = \<lparr>left = 11, top' = 11, right = 51, bottom = 51\<rparr>, weight = 2, tag = 7\<rparr>,
           \<lparr>rect = \<lparr>left = 200, top' = 200, right = 240, bottom = 240\<rparr>, weight = 1, tag = 7\<rparr>] \<and>
   members [0, 0, 1] 0 = [0, 1] \<and> members [0, 0, 1] 1 = [2]"
proof -
  have e: "Partition sample_vec (1 / 5) = Some (2, [0, 0, 1]) \<and>
    clusters sample_round sample_vec (1 / 5) =
     Some [\<lparr>rect = \<lparr>left = 11, top' = 11, right = 51, bottom = 51\<rparr>, weight = 2, tag = 7\<rparr>,
           \<lparr>rect = \<lparr>left = 200, top' = 200, right = 240, bottom = 240\<rparr>, weight = 1, tag = 7\<rparr>] \<and>
    members [0, 0, 1] 0 = [0, 1] \<and> members [0, 0, 1] 1 = [2]"
    by code_simp
  from clusters_representatives [of sample_vec "1 / 5" sample_round] e show ?thesis by blast
qed

text \<open>
  C2.  When \<^verbatim>\<open>GroupObjects\<close> gets past its guard, it appends to the output exactly the
  clusters that are \<open>emitted\<close>, in the order of the buffer: a cluster is appended if and only
  if its weight is at least \<^verbatim>\<open>groupSizeMin\<close> and no other cluster of weight at least
  \<^verbatim>\<open>groupSizeMin\<close> contains it within the margins while being heavier than
  \<open>max 3 weight\<^sub>i\<close>, or while the cluster itself has weight below 3.  Clusters of weight
  below \<^verbatim>\<open>groupSizeMin\<close> are never appended.
\<close>

theorem GroupObjects_suppression:
  assumes "groupSizeMin \<noteq> 0" "groupSizeMin \<le> length cands"
  shows "\<exists>buffer. clusters cvt cands sdm = Some buffer \<and>
           GroupObjects cvt Round out cands groupSizeMin sdm =
             Some (out @ map ((!) buffer)
                          (filter (emitted Round sdm groupSizeMin buffer) [0..<length buffer]))"
proof -
  from clusters_total [of cands sdm cvt] obtain nclasses labels buffer where
    c: "clusters cvt cands sdm = Some buffer"
      "\<forall>c < length buffer. members labels c \<noteq> [] \<and>
         buffer ! c = \<lparr>rect = Rect_div cvt (Rect_sum (map (\<lambda>i. rect (cands ! i)) (members labels c)))
                                   (real (length (members labels c))),
                       weight = int (length (members labels c)),
                       tag = tag (cands ! last (members labels c))\<rparr>"
    by blast
  have w: "\<forall>k < length buffer. 0 \<le> weight (buffer ! k)"
  proof (intro allI impI)
    fix k assume "k < length buffer"
    with c(2) have "weight (buffer ! k) = int (length (members labels k))" by simp
    then show "0 \<le> weight (buffer ! k)" by simp
  qed
  have s: "set [0..<length buffer] \<subseteq> {..<length buffer}" by auto
  have "GroupObjects cvt Round out cands groupSizeMin sdm =
          Some (suppress_loop Round sdm groupSizeMin buffer [0..<length buffer] out)"
    using assms c(1) by (simp add: GroupObjects_def)
  with suppress_loop_filter [OF w s] c(1) show ?thesis by simp
qed

theorem GroupObjects_suppression_witness:
  "(2::nat) \<noteq> 0 \<and> 2 \<le> length sample_nested \<and>
   clusters sample_round sample_nested (1 / 10) =
     Some [\<lparr>rect = \<lparr>left = 0, top' = 0, right = 100, bottom = 100\<rparr>, weight = 4, tag = 7\<rparr>,
           \<lparr>rect = \<lparr>left = 30, top' = 30, right = 70, bottom = 70\<rparr>, weight = 2, tag = 7\<rparr>] \<and>
   GroupObjects sample_round sample_round [] sample_nested 2 (1 / 10) =
     Some [\<lparr>rect = \<lparr>left = 0, top' = 0, right = 100, bottom = 100\<rparr>, weight = 4, tag = 7\<rparr>]"
proof -
  have h: "(2::nat) \<noteq> 0" "2 \<le> length sample_nested" by (simp_all add: sample_nested_def)
  have e: "clusters sample_round sample_nested (1 / 10) =
     Some [\<lparr>rect = \<lparr>left = 0, top' = 0, right = 100, bottom = 100\<rparr>, weight = 4, tag = 7\<rparr>,
           \<lparr>rect = \<lparr>left = 30, top' = 30, right = 70, bottom = 70\<rparr>, weight = 2, tag = 7\<rparr>] \<and>
    GroupObjects sample_round sample_round [] sample_nested 2 (1 / 10) =
     Some [\<lparr>rect = \<lparr>left = 0, top' = 0, right = 100, bottom = 100\<rparr>, weight = 4, tag = 7\<rparr>]"
    by code_simp
  from GroupObjects_suppression [OF h, of sample_round "1 / 10" sample_round "[]"] e h
  show ?thesis by blast
qed

text \<open>
  C5 as stated fails: a list of one candidate whose weight equals \<^verbatim>\<open>groupSizeMin = 2\<close> is
  shorter than \<^verbatim>\<open>groupSizeMin\<close>, so \<^verbatim>\<open>GroupObjects\<close> returns at its guard and emits
  nothing.
\<close>

theorem GroupObjects_single_counterexample:
  "GroupObjects sample_round sample_round []
     [\<lparr>rect = \<lparr>left = 10, top' = 10, right = 50, bottom = 50\<rparr>, weight = 2, tag = 7\<rparr>] 2 (1 / 5) = Some []"
  by (simp add: GroupObjects_def)

text \<open>
  C5, amended.  For a list of one candidate \<^verbatim>\<open>GroupObjects\<close> emits an object only when
  \<^verbatim>\<open>groupSizeMin = 1\<close>: it then appends the candidate's rectangle and tag with weight 1
  (the weight is the number of members, the weight of the candidate is not read), so a
  candidate of weight 1 is reproduced unchanged.  For every other \<^verbatim>\<open>groupSizeMin\<close> the output
  is left as it was.  The conversion of a \<^verbatim>\<open>double\<close> that holds an integer is assumed exact.
\<close>

theorem GroupObjects_single:
  assumes "\<forall>x. cvt (real_of_int x) = x"
  shows "GroupObjects cvt Round out [ob] groupSizeMin sdm =
           Some (if groupSizeMin = 1 then out @ [ob\<lparr>weight := 1\<rparr>] else out)"
proof (cases "groupSizeMin = 1")
  case False
  then have "groupSizeMin = 0 \<or> length [ob] < groupSizeMin" by auto
  with False show ?thesis by (simp add: GroupObjects_def)
next
  case True
  have f: "find_root [(- 1, 0)] 0 = Some 0"
    by (subst find_root.simps) simp
  have P: "Partition [ob] sdm = Some (1, [0])"
    by (simp add: Partition_def f)
  have c: "clusters cvt [ob] sdm = Some [ob\<lparr>weight := 1\<rparr>]"
    using assms
    by (simp add: clusters_def P average_def Rect_div_def Rect_add_def Object0_def Rect0_def)
  show ?thesis
    using True by (simp add: GroupObjects_def c size_t_of_int_def)
qed

theorem GroupObjects_single_witness:
  "(\<forall>x. sample_round (real_of_int x) = x) \<and>
   GroupObjects sample_round sample_round [] [cand 10 10 50 50] 1 (1 / 5) = Some [cand 10 10 50 50]"
proof -
  have h: "\<forall>x. sample_round (real_of_int x) = x"
    by (auto simp: sample_round_def) linarith+
  from GroupObjects_single [OF h, of sample_round "[]" "cand 10 10 50 50" 1 "1 / 5"] h
  show ?thesis by (simp add: cand_def)
qed

section \<open>The row strips of \<^verbatim>\<open>Hid::Detect\<close>\<close>

lemma strip_step_pos:
  assumes "top' r \<le> bottom r" "0 < workers"
  shows "0 < strip_step r workers through"
proof -
  define q where "q = (bottom r - top' r) div int workers"
  have q: "0 \<le> q"
    using assms by (simp add: q_def pos_imp_zdiv_nonneg_iff)
  have m: "0 \<le> (q + 1) mod 2" by simp
  have "strip_step r workers through = (if through then q + 1 + (q + 1) mod 2 else q + 1)"
    by (simp add: strip_step_def Let_def q_def)
  with q m show ?thesis by (cases through) simp_all
qed

lemma strip_step_even: "even (strip_step r workers True)"
proof -
  have "even (x + x mod 2)" for x :: int by presburger
  then show ?thesis by (simp add: strip_step_def Let_def)
qed

lemma strip_step_covers:
  assumes "top' r \<le> bottom r" "0 < workers"
  shows "bottom r - top' r < int workers * strip_step r workers through"
proof -
  define h where "h = bottom r - top' r"
  define n where "n = int workers"
  have n: "0 < n" using assms by (simp add: n_def)
  have e: "n * (h div n) + h mod n = h" by (rule mult_div_mod_eq)
  have b: "h mod n < n" using n by simp
  have x: "n * (h div n + 1) = n * (h div n) + n" by (simp add: distrib_left)
  have "h < n * (h div n + 1)" unfolding x using e b by linarith
  moreover have "0 \<le> (h div n + 1) mod 2" by simp
  then have "h div n + 1 \<le> strip_step r workers through"
    unfolding strip_step_def Let_def h_def n_def by (cases through) simp_all
  ultimately have "h < n * strip_step r workers through"
    using n by (meson less_le_trans mult_left_mono order_less_imp_le)
  then show ?thesis by (simp add: h_def n_def)
qed

lemma Detect_rows_prefix:
  assumes le: "top' r \<le> bottom r" and w: "0 < workers"
    and A1: "\<forall>l t rr b d. b \<le> t \<longrightarrow> run l t rr b d = d"
    and A2: "\<forall>l t m rr b d. t \<le> m \<and> m \<le> b \<and> (through \<longrightarrow> even (m - t))
                \<longrightarrow> run l m rr b (run l t rr m d) = run l t rr b d"
  shows "foldl (\<lambda>d i. run (left r) (strip_top r workers through i) (right r)
                            (strip_bottom r workers through i) d) d [0..<n]
         = run (left r) (top' r) (right r) (min (strip_top r workers through n) (bottom r)) d"
proof (induction n)
  case 0
  show ?case using A1 le by (simp add: strip_top_def)
next
  case (Suc n)
  let ?s = "strip_step r workers through"
  let ?T = "strip_top r workers through"
  have s: "0 < ?s" by (rule strip_step_pos [OF le w])
  have Tn: "top' r \<le> ?T n" using s by (simp add: strip_top_def)
  have TS: "?T (Suc n) = ?T n + ?s" by (simp add: strip_top_def algebra_simps)
  have B: "strip_bottom r workers through n = min (?T (Suc n)) (bottom r)"
    by (simp add: strip_bottom_def TS)
  have ev: "through \<longrightarrow> even (?T n - top' r)"
    using strip_step_even [of r workers] by (auto simp: strip_top_def)
  have "foldl (\<lambda>d i. run (left r) (?T i) (right r) (strip_bottom r workers through i) d) d [0..<Suc n]
        = run (left r) (?T n) (right r) (min (?T (Suc n)) (bottom r))
            (run (left r) (top' r) (right r) (min (?T n) (bottom r)) d)"
    using Suc.IH by (simp add: B)
  also have "\<dots> = run (left r) (top' r) (right r) (min (?T (Suc n)) (bottom r)) d"
  proof (cases "?T n \<le> bottom r")
    case True
    then have m: "min (?T n) (bottom r) = ?T n" by simp
    have "top' r \<le> ?T n \<and> ?T n \<le> min (?T (Suc n)) (bottom r) \<and> (through \<longrightarrow> even (?T n - top' r))"
      using Tn True s ev by (simp add: TS)
    with A2 show ?thesis unfolding m by blast
  next
    case False
    then have m: "min (?T n) (bottom r) = bottom r" "min (?T (Suc n)) (bottom r) = bottom r"
      using s by (simp_all add: TS)
    have "bottom r \<le> ?T n" using False by simp
    with A1 show ?thesis unfolding m by simp
  qed
  finally show ?case .
qed

lemma strip_rows_disjoint:
  assumes le: "top' r \<le> bottom r" and w: "0 < workers" and ij: "i < j"
  shows "strip_rows r workers through i \<inter> strip_rows r workers through j = {}"
proof -
  let ?s = "strip_step r workers through"
  have s: "0 < ?s" by (rule strip_step_pos [OF le w])
  have "int i + 1 \<le> int j" using ij by simp
  then have "(int i + 1) * ?s \<le> int j * ?s" using s by (simp only: mult_right_mono less_imp_le)
  then have "strip_top r workers through i + ?s \<le> strip_top r workers through j"
    by (simp add: strip_top_def algebra_simps)
  then show ?thesis
    by (auto simp: strip_rows_def strip_bottom_def)
qed

lemma strip_rows_union:
  assumes le: "top' r \<le> bottom r" and w: "0 < workers"
  shows "(\<Union>i < workers. strip_rows r workers through i) = {top' r ..< bottom r}"
proof (intro equalityI subsetI)
  let ?s = "strip_step r workers through"
  have s: "0 < ?s" by (rule strip_step_pos [OF le w])
  fix y assume "y \<in> (\<Union>i < workers. strip_rows r workers through i)"
  then obtain i where "strip_top r workers through i \<le> y" "y < strip_bottom r workers through i"
    by (auto simp: strip_rows_def)
  moreover have "top' r \<le> strip_top r workers through i" using s by (simp add: strip_top_def)
  ultimately show "y \<in> {top' r ..< bottom r}" by (simp add: strip_bottom_def)
next
  let ?s = "strip_step r workers through"
  have s: "0 < ?s" by (rule strip_step_pos [OF le w])
  fix y assume y: "y \<in> {top' r ..< bottom r}"
  define k where "k = (y - top' r) div ?s"
  have k0: "0 \<le> k" using y s by (simp add: k_def pos_imp_zdiv_nonneg_iff)
  have "y - top' r = ?s * k + (y - top' r) mod ?s" by (simp add: k_def)
  moreover have "0 \<le> (y - top' r) mod ?s" "(y - top' r) mod ?s < ?s" using s by simp_all
  ultimately have kb: "top' r + k * ?s \<le> y" "y < top' r + k * ?s + ?s"
    by (simp_all add: algebra_simps)
  have "k * ?s \<le> y - top' r" using kb by simp
  also have "\<dots> < bottom r - top' r" using y by simp
  also have "\<dots> < int workers * ?s" by (rule strip_step_covers [OF le w])
  finally have "k < int workers" using s by (simp add: mult_less_cancel_right)
  with k0 have kn: "nat k < workers" by simp
  have "y \<in> strip_rows r workers through (nat k)"
    using kb k0 y by (simp add: strip_rows_def strip_top_def strip_bottom_def)
  with kn show "y \<in> (\<Union>i < workers. strip_rows r workers through i)" by blast
qed

lemma Detect_rows_eq:
  assumes le: "top' r \<le> bottom r" and w: "0 < workers"
    and A1: "\<forall>l t rr b d. b \<le> t \<longrightarrow> run l t rr b d = d"
    and A2: "\<forall>l t m rr b d. t \<le> m \<and> m \<le> b \<and> (through \<longrightarrow> even (m - t))
                \<longrightarrow> run l m rr b (run l t rr m d) = run l t rr b d"
  shows "Detect_rows run r d workers through = Detect_rows run r d 0 through"
proof -
  have "bottom r \<le> strip_top r workers through workers"
    using strip_step_covers [OF le w, of through] by (simp add: strip_top_def)
  then have "min (strip_top r workers through workers) (bottom r) = bottom r" by simp
  with Detect_rows_prefix [OF le w A1 A2, of d workers] w
  show ?thesis by (simp add: Detect_rows_def)
qed

text \<open>For \<^verbatim>\<open>Hid::Detect\<close> itself: the rectangle it computes is an intersection, so its top
  is not below its bottom, and the two paths agree for every routine that writes nothing on
  an empty range of rows and can be split at rows of matching parity.\<close>

lemma Intersection_ordered: "top' (Intersection a b) \<le> bottom (Intersection a b)"
  by (simp add: Intersection_def Let_def)

lemma Hid_Detect_parity:
  assumes w: "0 < workers"
    and A1: "\<forall>m l t rr b d. b \<le> t \<longrightarrow>
               DetectionRun P (detect hid) (handle' hid) (sum' level, sqsum level, tilted level) m l t rr b d
                 = pixels d"
    and A2: "\<forall>m l t k rr b d. t \<le> k \<and> k \<le> b \<and> (throughColumn level \<longrightarrow> even (k - t)) \<longrightarrow>
               DetectionRun P (detect hid) (handle' hid) (sum' level, sqsum level, tilted level) m l k rr b
                 (d\<lparr>pixels := DetectionRun P (detect hid) (handle' hid)
                                  (sum' level, sqsum level, tilted level) m l t rr k d\<rparr>)
               = DetectionRun P (detect hid) (handle' hid) (sum' level, sqsum level, tilted level) m l t rr b d"
  shows "Hid_Detect P ds level hid msk rct workers = Hid_Detect P ds level hid msk rct 0"
proof -
  define m where "m = RegionMiddleCenter P msk (Point_sub (vsize (dst level)) (size' (ds ! data hid)))"
  define run where "run = (\<lambda>l t rr b d. d\<lparr>pixels := DetectionRun P (detect hid) (handle' hid)
                                        (sum' level, sqsum level, tilted level) m l t rr b d\<rparr>)"
  have R1: "\<forall>l t rr b d. b \<le> t \<longrightarrow> run l t rr b d = d"
    using A1 by (simp add: run_def)
  have R2: "\<forall>l t k rr b d. t \<le> k \<and> k \<le> b \<and> (throughColumn level \<longrightarrow> even (k - t))
                \<longrightarrow> run l k rr b (run l t rr k d) = run l t rr b d"
    using A2 by (simp add: run_def)
  show ?thesis
    unfolding Hid_Detect_def Let_def m_def [symmetric] run_def [symmetric]
    by (rule Detect_rows_eq [OF Intersection_ordered w R1 R2])
qed

text \<open>
  C1.  Let \<open>r\<close> be the valid sub-rectangle (\<open>top \<le> bottom\<close>) and let there be \<open>N > 0\<close> workers.
  The \<open>N\<close> strips with \<open>step = (bottom - top) / N + 1\<close>, made even when \<^verbatim>\<open>throughColumn\<close> is
  set, are pairwise disjoint and cover exactly the rows \<open>top \<le> row < bottom\<close>.  For a
  detection routine that writes nothing on an empty range of rows and whose work on a range
  of rows can be split at any row (at any row an even number of rows below the first, when
  \<^verbatim>\<open>throughColumn\<close> is set), running the routine strip by strip leaves the same output
  bitmap as the one synchronous call over the whole sub-rectangle.
\<close>

theorem Detect_rows_parity:
  assumes le: "top' r \<le> bottom r" and w: "0 < workers"
    and A1: "\<forall>l t rr b d. b \<le> t \<longrightarrow> run l t rr b d = d"
    and A2: "\<forall>l t m rr b d. t \<le> m \<and> m \<le> b \<and> (through \<longrightarrow> even (m - t))
                \<longrightarrow> run l m rr b (run l t rr m d) = run l t rr b d"
  shows "(\<forall>i < workers. \<forall>j < workers. i \<noteq> j \<longrightarrow>
            strip_rows r workers through i \<inter> strip_rows r workers through j = {}) \<and>
         (\<Union>i < workers. strip_rows r workers through i) = {top' r ..< bottom r} \<and>
         Detect_rows run r d workers through = Detect_rows run r d 0 through"
proof (intro conjI allI impI)
  fix i j :: nat assume "i \<noteq> j"
  then consider "i < j" | "j < i" by linarith
  then show "strip_rows r workers through i \<inter> strip_rows r workers through j = {}"
  proof cases
    case 1
    then show ?thesis by (rule strip_rows_disjoint [OF le w])
  next
    case 2
    then have "strip_rows r workers through j \<inter> strip_rows r workers through i = {}"
      by (rule strip_rows_disjoint [OF le w])
    then show ?thesis by blast
  qed
next
  show "(\<Union>i < workers. strip_rows r workers through i) = {top' r ..< bottom r}"
    by (rule strip_rows_union [OF le w])
next
  show "Detect_rows run r d workers through = Detect_rows run r d 0 through"
    by (rule Detect_rows_eq [OF le w A1 A2])
qed

text \<open>A routine that scans every second row and column meets the two assumptions; on rows
  1 to 7 with three workers the strips are rows 1 to 4, rows 5 to 7 and an empty one.\<close>

lemma set_stepped:
  "0 < s \<Longrightarrow> set (stepped lo hi s) = {y. lo \<le> y \<and> y < hi \<and> int s dvd (y - lo)}"
proof (induction lo hi s rule: stepped.induct)
  case (1 lo hi step)
  show ?case
  proof (cases "lo < hi")
    case False
    then show ?thesis by (subst stepped.simps) auto
  next
    case True
    have IH: "set (stepped (lo + int step) hi step) =
                {y. lo + int step \<le> y \<and> y < hi \<and> int step dvd (y - (lo + int step))}"
      using 1 True by simp
    have d: "int step dvd (y - (lo + int step)) \<longleftrightarrow> int step dvd (y - lo)" for y
    proof -
      have "y - lo = (y - (lo + int step)) + int step" by simp
      then show ?thesis by (metis dvd_add_triv_right_iff)
    qed
    have "set (stepped lo hi step) = insert lo (set (stepped (lo + int step) hi step))"
      using True 1(2) by (subst stepped.simps) simp
    also have "\<dots> = {y. lo \<le> y \<and> y < hi \<and> int step dvd (y - lo)}"
    proof (intro equalityI subsetI)
      fix y assume "y \<in> insert lo (set (stepped (lo + int step) hi step))"
      then show "y \<in> {y. lo \<le> y \<and> y < hi \<and> int step dvd (y - lo)}"
        using True IH d by auto
    next
      fix y assume y: "y \<in> {y. lo \<le> y \<and> y < hi \<and> int step dvd (y - lo)}"
      show "y \<in> insert lo (set (stepped (lo + int step) hi step))"
      proof (cases "y = lo")
        case False
        with y have pos: "0 < y - lo" and dv: "int step dvd (y - lo)" by auto
        then have "int step \<le> y - lo" by (rule zdvd_imp_le [rotated])
        with y dv show ?thesis unfolding IH d by auto
      qed simp
    qed
    finally show ?thesis .
  qed
qed

lemma scan_rows_empty: "b \<le> t \<Longrightarrow> scan_rows hit s l t r b d = d"
  unfolding scan_rows_def by (subst stepped.simps) simp

lemma scan_rows_split:
  assumes "0 < s" "t \<le> m" "m \<le> b" "int s dvd (m - t)"
  shows "scan_rows hit s l m r b (scan_rows hit s l t r m d) = scan_rows hit s l t r b d"
proof -
  have d: "int s dvd (y - m) \<longleftrightarrow> int s dvd (y - t)" for y
  proof -
    have "y - t = (y - m) + (m - t)" by simp
    with assms(4) show ?thesis by (metis dvd_add_left_iff)
  qed
  have "set (stepped t m s) \<union> set (stepped m b s) = set (stepped t b s)"
    unfolding set_stepped [OF assms(1)] d using assms(2,3) by auto
  then show ?thesis
    unfolding scan_rows_def by auto
qed

theorem Detect_rows_parity_witness:
  "top' sample_rect \<le> bottom sample_rect \<and> (0::nat) < 3 \<and>
   strip_rows sample_rect 3 True 0 = {1..<5} \<and> strip_rows sample_rect 3 True 1 = {5..<8} \<and>
   strip_rows sample_rect 3 True 2 = {} \<and>
   Detect_rows (scan_rows (\<lambda>col row. True) 2) sample_rect {} 3 True =
     Detect_rows (scan_rows (\<lambda>col row. True) 2) sample_rect {} 0 True"
proof -
  have le: "top' sample_rect \<le> bottom sample_rect" by (simp add: sample_rect_def)
  have w: "(0::nat) < 3" by simp
  have A1: "\<forall>l t rr b d. b \<le> t \<longrightarrow> scan_rows (\<lambda>col row. True) 2 l t rr b d = d"
    by (simp add: scan_rows_empty)
  have A2: "\<forall>l t m rr b d. t \<le> m \<and> m \<le> b \<and> (True \<longrightarrow> even (m - t)) \<longrightarrow>
              scan_rows (\<lambda>col row. True) 2 l m rr b (scan_rows (\<lambda>col row. True) 2 l t rr m d)
                = scan_rows (\<lambda>col row. True) 2 l t rr b d"
    by (intro allI impI scan_rows_split) auto
  have s: "strip_step sample_rect 3 True = 4"
    by (simp add: strip_step_def sample_rect_def)
  have rows: "strip_rows sample_rect 3 True 0 = {1..<5}" "strip_rows sample_rect 3 True 1 = {5..<8}"
    "strip_rows sample_rect 3 True 2 = {}"
    by (simp_all add: strip_rows_def strip_top_def strip_bottom_def s) (simp_all add: sample_rect_def)
  from Detect_rows_parity [OF le w A1 A2, of "{}"] le w rows show ?thesis by simp
qed

section \<open>The detector: \<^verbatim>\<open>Init\<close>, \<^verbatim>\<open>FillLevels\<close> and \<^verbatim>\<open>Detect\<close>\<close>

subsection \<open>Everything after the guard of \<^verbatim>\<open>Detect\<close> returns\<close>




subsection \<open>The scale loop of \<^verbatim>\<open>InitLevels\<close>\<close>

lemma bind_loop_ok:
  assumes "\<forall>h a b c t i. DetectionInit P h a b c t i \<noteq> None"
  shows "\<exists>level' nn'. bind_loop P ds inserts is (level, nn) = (True, level', nn') \<and>
           scale level' = scale level \<and>
           map data (hids level') = map data (hids level) @ filter (\<lambda>i. inserts ! i) is"
proof (induction "is" arbitrary: level nn)
  case Nil
  show ?case by simp
next
  case (Cons i "is")
  show ?case
  proof (cases "inserts ! i")
    case False
    with Cons.IH [of level nn] show ?thesis by simp
  next
    case True
    from assms obtain h where h: "DetectionInit P (handle (ds ! i)) (sum' level) (sqsum level)
        (tilted level) (throughColumn level) (Int16 (ds ! i)) = Some h"
      by (meson option.exhaust)
    define level1 where "level1 = level\<lparr>hids := hids level @
                            [\<lparr>handle' = h, data = i, detect = select_detect (ds ! i) (throughColumn level)\<rparr>],
                         needSqsum := needSqsum level \<or> Haar (ds ! i),
                         needTilted := needTilted level \<or> Tilted (ds ! i)\<rparr>"
    have step: "bind_loop P ds inserts (i # is) (level, nn) =
                  bind_loop P ds inserts is (level1, nn \<or> Haar (ds ! i))"
      using True h by (simp add: level1_def)
    from Cons.IH [of level1 "nn \<or> Haar (ds ! i)"] obtain level' nn' where
      IH: "bind_loop P ds inserts is (level1, nn \<or> Haar (ds ! i)) = (True, level', nn')"
        "scale level' = scale level1"
        "map data (hids level') = map data (hids level1) @ filter (\<lambda>i. inserts ! i) is"
      by blast
    have "scale level1 = scale level" "map data (hids level1) = map data (hids level) @ [i]"
      by (simp_all add: level1_def)
    with step IH True show ?thesis by simp
  qed
qed

lemma set_roi_keeps: "scale (set_roi P roi0 l) = scale l" "hids (set_roi P roi0 l) = hids l"
  by (simp_all add: set_roi_def Let_def)

lemma scale_step_exit:
  "exit_at cvt ds imageSize sizeMax sf k \<Longrightarrow>
   scale_step P cvt ds imageSize sizeMin sizeMax roi0 (sf ^ k) (nn, lvls) = Inl (lvls \<noteq> [], nn, lvls)"
  by (simp add: scale_step_def exit_at_def Let_def)

lemma scale_step_next:
  assumes binds: "\<forall>h a b c t i. DetectionInit P h a b c t i \<noteq> None"
    and ne: "\<not> exit_at cvt ds imageSize sizeMax sf k"
  shows "\<exists>nn' new. scale_step P cvt ds imageSize sizeMin sizeMax roi0 (sf ^ k) (nn, lvls) = Inr (nn', lvls @ new) \<and>
           map scale new = (if emit_at cvt ds imageSize sizeMin sizeMax sf k then [sf ^ k] else []) \<and>
           (\<forall>l \<in> set new. map data (hids l) = qualifying cvt ds imageSize sizeMin sizeMax (scale l))"
proof (cases "emit_at cvt ds imageSize sizeMin sizeMax sf k")
  case False
  then have "scale_step P cvt ds imageSize sizeMin sizeMax roi0 (sf ^ k) (nn, lvls) = Inr (nn, lvls @ [])"
    using ne by (auto simp: scale_step_def exit_at_def emit_at_def Let_def)
  with False show ?thesis by (metis (full_types) empty_iff list.map(1) list.set(1))
next
  case True
  define inserts where "inserts = map (\<lambda>d. inserted cvt imageSize sizeMin sizeMax d (sf ^ k)) ds"
  have ins: "(\<exists>b \<in> set inserts. b)" using True by (auto simp: inserts_def emit_at_def)
  from bind_loop_ok [OF binds, of ds inserts "[0..<length ds]" "new_level P cvt imageSize (sf ^ k)" nn]
  obtain level' nn' where b: "bind_loop P ds inserts [0..<length ds] (new_level P cvt imageSize (sf ^ k), nn) = (True, level', nn')"
    "scale level' = scale (new_level P cvt imageSize (sf ^ k))"
    "map data (hids level') = map data (hids (new_level P cvt imageSize (sf ^ k))) @ filter (\<lambda>i. inserts ! i) [0..<length ds]"
    by blast
  have sc: "scale level' = sf ^ k" using b(2) by (simp add: new_level_def Let_def)
  have "filter (\<lambda>i. inserts ! i) [0..<length ds] = qualifying cvt ds imageSize sizeMin sizeMax (sf ^ k)"
    unfolding qualifying_def by (rule filter_cong) (auto simp: inserts_def)
  with b(3) have hd: "map data (hids level') = qualifying cvt ds imageSize sizeMin sizeMax (sf ^ k)"
    by (simp add: new_level_def Let_def)
  have "scale_step P cvt ds imageSize sizeMin sizeMax roi0 (sf ^ k) (nn, lvls) = Inr (nn', lvls @ [set_roi P roi0 level'])"
    using ne ins b(1) by (simp add: scale_step_def exit_at_def Let_def inserts_def [symmetric])
  moreover have "map scale [set_roi P roi0 level'] = [sf ^ k]" by (simp add: set_roi_keeps sc)
  moreover have "\<forall>l \<in> set [set_roi P roi0 level']. map data (hids l) = qualifying cvt ds imageSize sizeMin sizeMax (scale l)"
    by (simp add: set_roi_keeps sc hd)
  ultimately show ?thesis using True by (metis (full_types))
qed

lemma levels_loop_run:
  assumes binds: "\<forall>h a b c t i. DetectionInit P h a b c t i \<noteq> None"
    and ex: "exit_at cvt ds imageSize sizeMax sf K"
    and first: "\<forall>k < K. \<not> exit_at cvt ds imageSize sizeMax sf k"
    and k: "k \<le> K"
  shows "\<exists>nn' new. levels_loop P cvt ds imageSize sf sizeMin sizeMax roi0 (sf ^ k) (nn, lvls)
             = Some (lvls @ new \<noteq> [], nn', lvls @ new) \<and>
           map scale new = map (\<lambda>j. sf ^ j) (filter (emit_at cvt ds imageSize sizeMin sizeMax sf) [k..<K]) \<and>
           (\<forall>l \<in> set new. map data (hids l) = qualifying cvt ds imageSize sizeMin sizeMax (scale l))"
  using k
proof (induction "K - k" arbitrary: k nn lvls)
  case 0
  then have kK: "k = K" by simp
  have "levels_loop P cvt ds imageSize sf sizeMin sizeMax roi0 (sf ^ k) (nn, lvls) = Some (lvls @ [] \<noteq> [], nn, lvls @ [])"
    using ex unfolding kK by (subst levels_loop.simps) (simp add: scale_step_exit)
  moreover have "map scale ([] :: ('a, 'b) Level list) = map (\<lambda>j. sf ^ j) (filter (emit_at cvt ds imageSize sizeMin sizeMax sf) [k..<K])"
    by (simp add: kK)
  ultimately show ?case by (metis (full_types) empty_iff list.set(1))
next
  case (Suc n)
  then have kK: "k < K" "n = K - Suc k" "Suc k \<le> K" by simp_all
  from first kK(1) have ne: "\<not> exit_at cvt ds imageSize sizeMax sf k" by simp
  from scale_step_next [OF binds ne, of sizeMin roi0 nn lvls] obtain nn1 new1 where
    s: "scale_step P cvt ds imageSize sizeMin sizeMax roi0 (sf ^ k) (nn, lvls) = Inr (nn1, lvls @ new1)"
      "map scale new1 = (if emit_at cvt ds imageSize sizeMin sizeMax sf k then [sf ^ k] else [])"
      "\<forall>l \<in> set new1. map data (hids l) = qualifying cvt ds imageSize sizeMin sizeMax (scale l)"
    by blast
  from Suc.hyps(1) [OF kK(2) kK(3), of nn1 "lvls @ new1"] obtain nn' new2 where
    IH: "levels_loop P cvt ds imageSize sf sizeMin sizeMax roi0 (sf ^ Suc k) (nn1, lvls @ new1)
             = Some ((lvls @ new1) @ new2 \<noteq> [], nn', (lvls @ new1) @ new2)"
      "map scale new2 = map (\<lambda>j. sf ^ j) (filter (emit_at cvt ds imageSize sizeMin sizeMax sf) [Suc k..<K])"
      "\<forall>l \<in> set new2. map data (hids l) = qualifying cvt ds imageSize sizeMin sizeMax (scale l)"
    by blast
  have p: "sf ^ k * sf = sf ^ Suc k" by simp
  have run: "levels_loop P cvt ds imageSize sf sizeMin sizeMax roi0 (sf ^ k) (nn, lvls)
          = Some (lvls @ (new1 @ new2) \<noteq> [], nn', lvls @ (new1 @ new2))"
    using IH(1) by (subst levels_loop.simps) (simp only: s(1) sum.case p append_assoc)
  have up: "[k..<K] = k # [Suc k..<K]" using kK(1) by (rule upt_conv_Cons)
  have sc: "map scale (new1 @ new2) = map (\<lambda>j. sf ^ j) (filter (emit_at cvt ds imageSize sizeMin sizeMax sf) [k..<K])"
    unfolding up using s(2) IH(2) by simp
  have hd: "\<forall>l \<in> set (new1 @ new2). map data (hids l) = qualifying cvt ds imageSize sizeMin sizeMax (scale l)"
    using s(3) IH(3) by auto
  from run sc hd show ?case by blast
qed

lemma first_exit_exists:
  assumes sf: "1 < sf" and pos: "\<forall>d \<in> set ds. 0 < px (size' d)"
    and cv: "\<forall>x. x - 1 \<le> real_of_int (cvt x)"
  shows "\<exists>K. exit_at cvt ds imageSize sizeMax sf K \<and> (\<forall>k < K. \<not> exit_at cvt ds imageSize sizeMax sf k)"
proof -
  from real_arch_pow [OF sf, of "real_of_int (px imageSize) + 1"] obtain n where
    n: "real_of_int (px imageSize) + 1 < sf ^ n" by blast
  have "exit_at cvt ds imageSize sizeMax sf n"
    unfolding exit_at_def
  proof
    fix d assume d: "d \<in> set ds"
    with pos have "1 \<le> real_of_int (px (size' d))" by fastforce
    moreover have "0 \<le> sf ^ n" using sf by simp
    ultimately have "1 * sf ^ n \<le> real_of_int (px (size' d)) * sf ^ n"
      by (rule mult_right_mono)
    with n have "real_of_int (px imageSize) + 1 < real_of_int (px (size' d)) * sf ^ n" by simp
    moreover from cv have "real_of_int (px (size' d)) * sf ^ n - 1 \<le> real_of_int (cvt (real_of_int (px (size' d)) * sf ^ n))"
      by blast
    ultimately have "px imageSize < cvt (real_of_int (px (size' d)) * sf ^ n)" by linarith
    then show "\<not> fits cvt imageSize sizeMax d (sf ^ n)"
      by (simp add: fits_def Point_mul_def Let_def)
  qed
  then have "\<exists>n. exit_at cvt ds imageSize sizeMax sf n" ..
  then show ?thesis by (rule exists_least_iff [THEN iffD1])
qed


lemma InitLevels_returns:
  assumes sf: "1 < scaleFactor"
    and binds: "\<forall>h a b c t i. DetectionInit P h a b c t i \<noteq> None"
    and pos: "\<forall>m \<in> set (m_data d). 0 < px (size' m)"
    and cv: "\<forall>x. x - 1 \<le> real_of_int (cvt x)"
  shows "\<exists>ok d'. InitLevels P cvt scaleFactor sizeMin sizeMax roi0 d = Some (ok, d')"
proof -
  from first_exit_exists [OF sf pos cv, of "m_imageSize d" sizeMax] obtain K where
    K: "exit_at cvt (m_data d) (m_imageSize d) sizeMax scaleFactor K"
      "\<forall>k < K. \<not> exit_at cvt (m_data d) (m_imageSize d) sizeMax scaleFactor k"
    by blast
  have z: "(0::nat) \<le> K" by simp
  from levels_loop_run [OF binds K z, of sizeMin roi0 False "[]"] obtain nn lvls where
    "levels_loop P cvt (m_data d) (m_imageSize d) scaleFactor sizeMin sizeMax roi0 1 (False, [])
          = Some (lvls \<noteq> [], nn, lvls)"
    by auto
  then show ?thesis by (simp add: InitLevels_def)
qed

subsection \<open>The flag returned by \<^verbatim>\<open>Init\<close> and the levels it leaves\<close>




lemma levels_loop_flag_ok:
  assumes binds: "\<forall>h a b c t i. DetectionInit prm h a b c t i \<noteq> None"
    and run: "levels_loop prm cvt ds imageSize sf sizeMin sizeMax roi0 s st = Some y"
  shows "fst y = (snd (snd y) \<noteq> [])"
proof -
  have "(\<forall>h a b c t i. DetectionInit prm h a b c t i \<noteq> None) \<longrightarrow> fst y = (snd (snd y) \<noteq> [])"
  proof (rule levels_loop.raw_induct
    [where P = "\<lambda>p cvt ds imageSize sf sizeMin sizeMax roi0 s st y.
                  (\<forall>h a b c t i. DetectionInit p h a b c t i \<noteq> None) \<longrightarrow> fst y = (snd (snd y) \<noteq> [])",
      OF _ run])
  fix loop :: "('a, 'b) prims \<Rightarrow> (real \<Rightarrow> int) \<Rightarrow> 'a Data list \<Rightarrow> Point \<Rightarrow> real \<Rightarrow> Point \<Rightarrow> Point \<Rightarrow> 'b View
     \<Rightarrow> real \<Rightarrow> bool \<times> ('a, 'b) Level list \<Rightarrow> (bool \<times> bool \<times> ('a, 'b) Level list) option"
    and p cvt ds imageSize sf sizeMin sizeMax roi0 s st y
  assume IH: "\<And>p cvt ds imageSize sf sizeMin sizeMax roi0 s st y.
                 loop p cvt ds imageSize sf sizeMin sizeMax roi0 s st = Some y \<Longrightarrow>
                 (\<forall>h a b c t i. DetectionInit p h a b c t i \<noteq> None) \<longrightarrow> fst y = (snd (snd y) \<noteq> [])"
    and step: "(case scale_step p cvt ds imageSize sizeMin sizeMax roi0 s st of
                  Inl res \<Rightarrow> Some res
                | Inr st' \<Rightarrow> loop p cvt ds imageSize sf sizeMin sizeMax roi0 (s * sf) st') = Some y"
  show "(\<forall>h a b c t i. DetectionInit p h a b c t i \<noteq> None) \<longrightarrow> fst y = (snd (snd y) \<noteq> [])"
  proof
    assume ok: "\<forall>h a b c t i. DetectionInit p h a b c t i \<noteq> None"
    show "fst y = (snd (snd y) \<noteq> [])"
    proof (cases "scale_step p cvt ds imageSize sizeMin sizeMax roi0 s st")
      case (Inl res)
      with step have res: "res = y" by simp
      obtain nn0 lvls0 where st: "st = (nn0, lvls0)" by (cases st)
      define inserts where "inserts = map (\<lambda>d. inserted cvt imageSize sizeMin sizeMax d s) ds"
      from bind_loop_ok [OF ok, of ds inserts "[0..<length ds]" "new_level p cvt imageSize s" nn0]
      obtain level' nn' where
        b: "bind_loop p ds inserts [0..<length ds] (new_level p cvt imageSize s, nn0) = (True, level', nn')"
        by blast
      from Inl res b show ?thesis
        unfolding scale_step_def st
        by (auto simp: Let_def inserts_def split: if_splits)
    next
      case (Inr st')
      with step have "loop p cvt ds imageSize sf sizeMin sizeMax roi0 (s * sf) st' = Some y"
        by simp
      from IH [OF this] ok show ?thesis by blast
    qed
  qed
  qed
  with binds show ?thesis by blast
qed

text \<open>When no bind fails, an \<^verbatim>\<open>Init\<close> that returns \<^verbatim>\<open>false\<close> on a detector that has no
  levels unless it has models leaves no levels, and every \<^verbatim>\<open>Detect\<close> after it returns
  \<^verbatim>\<open>false\<close> and leaves \<^verbatim>\<open>objects\<close> alone.\<close>

lemma Detect_after_Init_without_bind_failure:
  assumes binds: "\<forall>h a b c t i. DetectionInit P h a b c t i \<noteq> None"
    and fresh: "m_data d0 = [] \<longrightarrow> m_levels d0 = []"
    and init: "Init P cvt hc imageSize sf sizeMin sizeMax roi0 tn d0 = Some (False, d)"
  shows "Detect P' cvt' Round img objects g sdm mm mr d = Some (False, objects, d)"
proof -
  have "m_levels d = []"
  proof (cases "m_data d0 = []")
    case True
    with init fresh show ?thesis by (simp add: Init_def)
  next
    case False
    define d1 where "d1 = InitWorkers hc tn (d0\<lparr>m_imageSize := imageSize\<rparr>)"
    from init False have "InitLevels P cvt sf sizeMin sizeMax roi0 d1 = Some (False, d)"
      by (simp add: Init_def d1_def)
    then obtain nn lvls where
      l: "levels_loop P cvt (m_data d1) (m_imageSize d1) sf sizeMin sizeMax roi0 1 (False, []) = Some (False, nn, lvls)"
      and d: "d = d1\<lparr>m_needNormalization := nn, m_levels := lvls\<rparr>"
      by (auto simp: InitLevels_def split: Option.bind_splits)
    from levels_loop_flag_ok [OF binds l] d show ?thesis by simp
  qed
  then show ?thesis by (simp add: Detect_def)
qed

subsection \<open>The guard of \<^verbatim>\<open>Detect\<close>\<close>



text \<open>
  C8 fails on the code.  When the native bind of a model fails, \<^verbatim>\<open>InitLevels\<close> returns
  \<^verbatim>\<open>false\<close> from inside its loop and leaves the level under construction in \<^verbatim>\<open>_levels\<close>.
  The guard of \<^verbatim>\<open>Detect\<close> only asks whether \<^verbatim>\<open>_levels\<close> is empty, so a following \<^verbatim>\<open>Detect\<close>
  on an image of the size given to that \<^verbatim>\<open>Init\<close> runs and returns \<^verbatim>\<open>true\<close>.  Here: one
  cascade is loaded, \<^verbatim>\<open>Init\<close> for a 40 by 40 image fails at the first bind and returns
  \<^verbatim>\<open>false\<close> with one level (scale 1) left, and \<^verbatim>\<open>Detect\<close> on a 40 by 40 image returns
  \<^verbatim>\<open>true\<close>.
\<close>

theorem Detect_after_failed_bind:
  "map_option fst (init_sample never_binds 40) = Some False \<and>
   map scale (m_levels (snd (the (init_sample never_binds 40)))) = [1] \<and>
   map_option fst (detect_sample never_binds 40 (snd (the (init_sample never_binds 40)))) = Some True"
  by code_simp

subsection \<open>\<^verbatim>\<open>FillLevels\<close>\<close>

lemma EstimateIntegral_src: "src (EstimateIntegral P l) = src l"
  by (simp add: EstimateIntegral_def)

text \<open>
  C6 as stated fails: with three levels the source of level 2 is not the resize of the
  refreshed source of level 1.
\<close>

theorem FillLevels_counterexample:
  "length (m_levels filled_sample) = 3 \<and>
   pixels (src (m_levels filled_sample ! 2)) \<noteq>
     ResizeBilinear (sym_prims always_binds) (src (m_levels filled_sample ! 1))
       (vsize (src (m_levels filled_sample ! 2)))"
  by code_simp

text \<open>
  C6, amended.  \<^verbatim>\<open>FillLevels\<close> resizes the input image (converted to gray first when it is
  not gray) into the source of the first level and normalises it when
  \<^verbatim>\<open>_needNormalization\<close> is set; the source of every level \<open>i \<ge> 1\<close> is the bilinear resize of
  that refreshed source of the first level to the size of level \<open>i\<close>.  No level is resized
  from the level before it, unless that is the first.
\<close>

theorem FillLevels_from_first_level:
  assumes "m_levels d \<noteq> []"
  shows "\<exists>d'. FillLevels P img d = Some d' \<and> length (m_levels d') = length (m_levels d) \<and>
           pixels (src (m_levels d' ! 0)) =
             (let gray = (if format img \<noteq> Gray8
                          then \<lparr>vsize = vsize img, format = Gray8, pixels = Convert P img\<rparr> else img);
                  resized = (src (m_levels d ! 0))\<lparr>pixels := ResizeBilinear P gray (vsize (src (m_levels d ! 0)))\<rparr>
              in if m_needNormalization d then NormalizeHistogram P resized else pixels resized) \<and>
           (\<forall>i. 1 \<le> i \<and> i < length (m_levels d) \<longrightarrow>
              pixels (src (m_levels d' ! i)) =
                ResizeBilinear P (src (m_levels d' ! 0)) (vsize (src (m_levels d ! i))))"
proof -
  from assms obtain level0 rest where l: "m_levels d = level0 # rest" by (cases "m_levels d") auto
  show ?thesis
    unfolding FillLevels_def l
    by (auto simp: Let_def EstimateIntegral_src resize_into_def Recreate_def nth_Cons split: nat.splits)
qed

theorem FillLevels_from_first_level_witness:
  "m_levels (snd (the (init_sample always_binds 100))) \<noteq> [] \<and>
   map_option (\<lambda>d. map (\<lambda>l. pixels (src l)) (m_levels d))
     (FillLevels (sym_prims always_binds) (sample_image \<lparr>px = 100, py = 100\<rparr>)
                 (snd (the (init_sample always_binds 100))))
   = Some [Op ''NormalizeHistogram'' [Op ''ResizeBilinear'' [Op ''Convert'' [Pix 0], Num 100, Num 100]],
           Op ''ResizeBilinear''
             [Op ''NormalizeHistogram'' [Op ''ResizeBilinear'' [Op ''Convert'' [Pix 0], Num 100, Num 100]],
              Num 50, Num 50],
           Op ''ResizeBilinear''
             [Op ''NormalizeHistogram'' [Op ''ResizeBilinear'' [Op ''Convert'' [Pix 0], Num 100, Num 100]],
              Num 25, Num 25]]"
proof -
  have e: "m_levels (snd (the (init_sample always_binds 100))) \<noteq> [] \<and>
   map_option (\<lambda>d. map (\<lambda>l. pixels (src l)) (m_levels d))
     (FillLevels (sym_prims always_binds) (sample_image \<lparr>px = 100, py = 100\<rparr>)
                 (snd (the (init_sample always_binds 100))))
   = Some [Op ''NormalizeHistogram'' [Op ''ResizeBilinear'' [Op ''Convert'' [Pix 0], Num 100, Num 100]],
           Op ''ResizeBilinear''
             [Op ''NormalizeHistogram'' [Op ''ResizeBilinear'' [Op ''Convert'' [Pix 0], Num 100, Num 100]],
              Num 50, Num 50],
           Op ''ResizeBilinear''
             [Op ''NormalizeHistogram'' [Op ''ResizeBilinear'' [Op ''Convert'' [Pix 0], Num 100, Num 100]],
              Num 25, Num 25]]"
    by code_simp
  then have ne: "m_levels (snd (the (init_sample always_binds 100))) \<noteq> []" by blast
  from FillLevels_from_first_level [OF ne, of "sym_prims always_binds" "sample_image \<lparr>px = 100, py = 100\<rparr>"] e
  show ?thesis by blast
qed

subsection \<open>The levels built by \<^verbatim>\<open>InitLevels\<close>\<close>




end
